theory Spec2Isabelle
  imports Main
begin

section \<open>Elements, orders and failures\<close>

text \<open>
  An element is an opaque value carrying a strict order \<open>Less\<close>. Elements are modelled as
  pairs of a key and a payload, compared by key: two elements can be equal under the order
  (neither is less than the other) and still be different values, as two log entries
  with one timestamp are. A nullable \<open>Element\<close> of the source is an \<open>option\<close>.
\<close>

datatype error = NilDereference | IndexOutOfRange | Panic string

text \<open>Modelled from the spec: the method \<open>Less\<close> of the element interface, a strict
  total order up to equality of keys.\<close>

definition Less :: "('k::linorder) \<times> 'v \<Rightarrow> 'k \<times> 'v \<Rightarrow> bool" where
  "Less a b = (fst a < fst b)"

text \<open>A call \<open>a.Less(b)\<close> on nullable elements: a nil receiver or argument aborts.\<close>

fun LessE :: "(('k::linorder) \<times> 'v) option \<Rightarrow> ('k \<times> 'v) option \<Rightarrow> error + bool" where
  "LessE (Some a) (Some b) = Inr (Less a b)"
| "LessE _ _ = Inl NilDereference"

text \<open>Modelled from the spec: the two order relations the core is parameterised by,
  strictly-before (\<open>a.Less(b)\<close>) and before-or-equal (\<open>!b.Less(a)\<close>).\<close>

datatype Order = LessOrder | LessOrEqualOrder

fun holds :: "Order \<Rightarrow> ('k::linorder) \<times> 'v \<Rightarrow> 'k \<times> 'v \<Rightarrow> bool" where
  "holds LessOrder a b = Less a b"
| "holds LessOrEqualOrder a b = (\<not> Less b a)"

fun applyOrder :: "Order \<Rightarrow> (('k::linorder) \<times> 'v) option \<Rightarrow> ('k \<times> 'v) option \<Rightarrow> error + bool" where
  "applyOrder o' (Some a) (Some b) = Inr (holds o' a b)"
| "applyOrder o' _ _ = Inl NilDereference"

text \<open>Short-circuit conjunction and negation of conditions that can abort.\<close>

fun andAlso :: "error + bool \<Rightarrow> error + bool \<Rightarrow> error + bool" where
  "andAlso (Inl e) _ = Inl e"
| "andAlso (Inr False) _ = Inr False"
| "andAlso (Inr True) c = c"

fun notE :: "error + bool \<Rightarrow> error + bool" where
  "notE (Inl e) = Inl e"
| "notE (Inr c) = Inr (\<not> c)"

section \<open>Sorted ranges\<close>

text \<open>
  The values of the interface \<open>SortedRange\<close>. The struct \<open>disjointRanges\<close> is the
  code's, with its fields \<open>first\<close>, \<open>last\<close> and \<open>segments\<close>; a slice is read as the list
  of its contents.

  Modelled from the spec: the sentinel \<open>EmptyRange\<close> (nil bounds, \<open>Limit\<close> 0, \<open>Partition\<close>
  returns \<open>(EmptyRange, EmptyRange)\<close>, a cursor that ends at once) and a primitive sorted
  range \<open>Leaf\<close> over the elements it holds in ascending order (\<open>First\<close> the least and
  \<open>Last\<close> the greatest of them, nil when there is none; \<open>Limit\<close> their number).

  \<open>Limit\<close> is an \<open>int\<close> in the source; the sum over the segments is taken without
  wrap-around.
\<close>

datatype 'e SortedRange =
    EmptyRange
  | Leaf "'e list"
  | DisjointRanges "'e option" "'e option" "'e SortedRange list"

fun First :: "'e SortedRange \<Rightarrow> 'e option" where
  "First EmptyRange = None"
| "First (Leaf xs) = (if xs = [] then None else Some (hd xs))"
| "First (DisjointRanges f l segs) = f"

fun Last :: "'e SortedRange \<Rightarrow> 'e option" where
  "Last EmptyRange = None"
| "Last (Leaf xs) = (if xs = [] then None else Some (last xs))"
| "Last (DisjointRanges f l segs) = l"

fun Limit :: "'e SortedRange \<Rightarrow> nat" where
  "Limit EmptyRange = 0"
| "Limit (Leaf xs) = length xs"
| "Limit (DisjointRanges f l segs) = sum_list (map Limit segs)"

text \<open>Modelled from the spec: \<open>Partition\<close> of a primitive range sends every element for
  which \<open>order(element, pivot)\<close> holds to the left part and the remainder to the right
  part, keeping the order inside each part. A comparison with a nil pivot aborts.\<close>

fun leafPartition :: "(('k::linorder) \<times> 'v) list \<Rightarrow> ('k \<times> 'v) option \<Rightarrow> Order \<Rightarrow>
    error + (('k \<times> 'v) SortedRange \<times> ('k \<times> 'v) SortedRange)" where
  "leafPartition [] e o' = Inr (Leaf [], Leaf [])"
| "leafPartition xs None o' = Inl NilDereference"
| "leafPartition xs (Some p) o' =
     Inr (Leaf (filter (\<lambda>x. holds o' x p) xs), Leaf (filter (\<lambda>x. \<not> holds o' x p) xs))"

text \<open>
  \<open>disjointRanges.Partition\<close>. The loop over \<open>d.segments\<close> is \<open>PartitionLoop\<close>: at index
  \<open>i\<close> its argument \<open>ls\<close> is \<open>d.segments[0:i]\<close> and \<open>r # rs\<close> is \<open>d.segments[i:]\<close>, so
  \<open>d.segments[i-1]\<close> is the last of \<open>ls\<close> and is out of range when \<open>i = 0\<close>.
\<close>

fun Partition :: "(('k::linorder) \<times> 'v) SortedRange \<Rightarrow> ('k \<times> 'v) option \<Rightarrow> Order \<Rightarrow>
    error + (('k \<times> 'v) SortedRange \<times> ('k \<times> 'v) SortedRange)"
and PartitionLoop :: "('k \<times> 'v) option \<Rightarrow> ('k \<times> 'v) option \<Rightarrow>
    ('k \<times> 'v) SortedRange list \<Rightarrow> ('k \<times> 'v) SortedRange list \<Rightarrow> ('k \<times> 'v) option \<Rightarrow> Order \<Rightarrow>
    error + (('k \<times> 'v) SortedRange \<times> ('k \<times> 'v) SortedRange)" where
  "Partition EmptyRange e o' = Inr (EmptyRange, EmptyRange)"
| "Partition (Leaf xs) e o' = leafPartition xs e o'"
| "Partition (DisjointRanges f l segs) e o' =
     (case applyOrder o' f e of
        Inl err \<Rightarrow> Inl err
      | Inr c \<Rightarrow>
          if \<not> c then Inr (EmptyRange, DisjointRanges f l segs)
          else PartitionLoop f l [] segs e o')"
| "PartitionLoop f l ls [] e o' = Inr (DisjointRanges f l ls, EmptyRange)"
| "PartitionLoop f l ls (r # rs) e o' =
     (if First r = None then Inl (Panic ''r.First() is nil!'')
      else if Last r = None then Inl (Panic ''r.Last() is nil!'')
      else
        case andAlso (applyOrder o' e (First r)) (notE (applyOrder o' (First r) e)) of
          Inl err \<Rightarrow> Inl err
        | Inr True \<Rightarrow>
            (if ls = [] then Inl IndexOutOfRange
             else Inr (DisjointRanges f (Last (last ls)) ls,
                       DisjointRanges (First r) l (r # rs)))
        | Inr False \<Rightarrow>
            (case andAlso (applyOrder o' (First r) e) (applyOrder o' e (Last r)) of
               Inl err \<Rightarrow> Inl err
             | Inr True \<Rightarrow>
                 (case Partition r e o' of
                    Inl err \<Rightarrow> Inl err
                  | Inr (p1, p2) \<Rightarrow>
                      if Limit p2 = 0 then
                        (if Last p1 = None then Inl (Panic ''p1.Last() is nil!'')
                         else Inr (DisjointRanges f (Last p1) (ls @ [p1]),
                                   if rs \<noteq> [] then DisjointRanges (First (hd rs)) l rs
                                   else EmptyRange))
                      else
                        (if Last p1 = None then Inl (Panic ''p1.Last() is nil!'')
                         else if First p2 = None then Inl (Panic ''p2.First() is nil!'')
                         else Inr (DisjointRanges f (Last p1) (ls @ [p1]),
                                   DisjointRanges (First p2) l (p2 # rs))))
             | Inr False \<Rightarrow> PartitionLoop f l (ls @ [r]) rs e o'))"

section \<open>Selection helpers, flatten and merge\<close>

definition selectFirst :: "(('k::linorder) \<times> 'v) SortedRange \<Rightarrow> ('k \<times> 'v) SortedRange \<Rightarrow> ('k \<times> 'v) option" where
  "selectFirst a b =
     (case First a of
        None \<Rightarrow> First b
      | Some x \<Rightarrow>
          (case First b of
             None \<Rightarrow> First a
           | Some y \<Rightarrow> if Less x y then First a else First b))"

definition selectLast :: "(('k::linorder) \<times> 'v) SortedRange \<Rightarrow> ('k \<times> 'v) SortedRange \<Rightarrow> ('k \<times> 'v) option" where
  "selectLast a b =
     (case Last a of
        None \<Rightarrow> Last b
      | Some x \<Rightarrow>
          (case Last b of
             None \<Rightarrow> Last a
           | Some y \<Rightarrow> if \<not> Less y x then Last b else Last a))"

text \<open>
  \<open>flatten\<close>: a leading segment that is no \<open>disjointRanges\<close> is kept and the rest is
  flattened; otherwise \<open>flattenLoop\<close> (the \<open>for\<close> loop, with its accumulator \<open>tmp\<close>)
  replaces each leading \<open>disjointRanges\<close> by its own segments and hands over to
  \<open>flatten\<close> at the first segment of another kind.
\<close>

function flatten :: "'e SortedRange list \<Rightarrow> 'e SortedRange list"
and flattenLoop :: "'e SortedRange list \<Rightarrow> 'e SortedRange list \<Rightarrow> 'e SortedRange list" where
  "flatten [] = []"
| "flatten (EmptyRange # rest) = EmptyRange # flatten rest"
| "flatten (Leaf xs # rest) = Leaf xs # flatten rest"
| "flatten (DisjointRanges f l segs # rest) = flattenLoop [] (DisjointRanges f l segs # rest)"
| "flattenLoop tmp [] = tmp"
| "flattenLoop tmp (DisjointRanges f l segs # rest) = flattenLoop (tmp @ segs) rest"
| "flattenLoop tmp (EmptyRange # rest) = tmp @ flatten (EmptyRange # rest)"
| "flattenLoop tmp (Leaf xs # rest) = tmp @ flatten (Leaf xs # rest)"
  by pat_completeness auto
termination
  by (relation "measure (\<lambda>s. case s of
          Inl segs \<Rightarrow> 3 * length segs + (case segs of DisjointRanges f l ss # rest \<Rightarrow> 2 | _ \<Rightarrow> 0)
        | Inr (tmp, segs) \<Rightarrow> 3 * length segs + 1)")
     (auto split: list.splits SortedRange.splits)

text \<open>Modelled from the spec: \<open>useEmptyRangeIfEmpty\<close> substitutes \<open>EmptyRange\<close> for an
  empty result of the overlap-merge primitive.\<close>

definition useEmptyRangeIfEmpty :: "'e SortedRange \<Rightarrow> 'e SortedRange" where
  "useEmptyRangeIfEmpty r = (if Limit r = 0 then EmptyRange else r)"

text \<open>
  \<open>merge\<close>. The overlap-merge primitive \<open>newMergeableRange(first, last, x, y, nil)\<close> is
  outside the core and is the parameter \<open>nmr\<close>.
\<close>

definition merge ::
  "((('k::linorder) \<times> 'v) option \<Rightarrow> ('k \<times> 'v) option \<Rightarrow> ('k \<times> 'v) SortedRange \<Rightarrow>
      ('k \<times> 'v) SortedRange \<Rightarrow> ('k \<times> 'v) SortedRange) \<Rightarrow>
   ('k \<times> 'v) SortedRange \<Rightarrow> ('k \<times> 'v) SortedRange \<Rightarrow> error + ('k \<times> 'v) SortedRange" where
  "merge nmr a b =
     (if Limit a = 0 then Inr b
      else if Limit b = 0 then Inr a
      else
        case LessE (Last a) (First b) of
          Inl err \<Rightarrow> Inl err
        | Inr True \<Rightarrow> Inr (DisjointRanges (First a) (selectLast a b) [a, b])
        | Inr False \<Rightarrow>
            (let first = selectFirst a b;
                 last' = selectLast a b
             in case Partition a (First b) LessOrder of
                  Inl err \<Rightarrow> Inl err
                | Inr (p1, p2) \<Rightarrow>
                    (case Partition b (Last a) LessOrEqualOrder of
                       Inl err \<Rightarrow> Inl err
                     | Inr (p3, p4) \<Rightarrow>
                         (let m23 =
                                (if Limit p2 = 0 then p3
                                 else if Limit p3 = 0 then p2
                                 else useEmptyRangeIfEmpty
                                        (nmr (selectFirst p2 p3) (selectLast p2 p3) p2 p3));
                              segments = filter (\<lambda>r. Limit r > 0) [p1, m23, p4]
                          in case segments of
                               [] \<Rightarrow> Inl (Panic ''unexpected'')
                             | [s] \<Rightarrow> Inr s
                             | _ \<Rightarrow> Inr (DisjointRanges first last' (flatten segments))))))"

section \<open>Cursors\<close>

text \<open>
  The values of the interface \<open>Cursor\<close>. The struct \<open>disjointCursor\<close> is the code's, with
  its fields \<open>next\<close>, \<open>cursor\<close> (nullable) and \<open>segments\<close>. A call on a cursor returns its
  result together with the cursor's new state.

  Modelled from the spec: the cursor of \<open>EmptyRange\<close>, and the cursor of a primitive range,
  which is the list of the elements it has not produced yet: \<open>Next\<close> returns the next
  element, or nil from the end on; \<open>Fill\<close> writes as many elements as fit into the buffer.
\<close>

datatype 'e Cursor =
    EmptyCursor
  | LeafCursor "'e list"
  | DisjointCursor nat "'e Cursor option" "'e SortedRange list"

text \<open>\<open>Open\<close>: \<open>d.segments[0]\<close> is out of range when \<open>d\<close> has no segment.\<close>

fun Open :: "'e SortedRange \<Rightarrow> error + 'e Cursor" where
  "Open EmptyRange = Inr EmptyCursor"
| "Open (Leaf xs) = Inr (LeafCursor xs)"
| "Open (DisjointRanges f l segs) =
     (case segs of
        [] \<Rightarrow> Inl IndexOutOfRange
      | s # ss \<Rightarrow>
          (case Open s of
             Inl err \<Rightarrow> Inl err
           | Inr c \<Rightarrow> Inr (DisjointCursor 0 (Some c) segs)))"

text \<open>\<open>nextCursor\<close> increments \<open>c.next\<close> and returns the cursor to store in \<open>c.cursor\<close>.\<close>

definition nextCursor :: "nat \<Rightarrow> 'e SortedRange list \<Rightarrow> error + (nat \<times> 'e Cursor option)" where
  "nextCursor n segs =
     (let n' = n + 1 in
      if n' < length segs then
        (case Open (segs ! n') of
           Inl err \<Rightarrow> Inl err
         | Inr c \<Rightarrow> Inr (n', Some c))
      else Inr (n', None))"

text \<open>The measures that bound the loops of \<open>Next\<close> and \<open>Fill\<close>: the segments a cursor has
  still to open, and the cursors nested in the one it reads.\<close>

fun rangeSize :: "'e SortedRange \<Rightarrow> nat" where
  "rangeSize EmptyRange = 1"
| "rangeSize (Leaf xs) = 1"
| "rangeSize (DisjointRanges f l segs) = 2 + sum_list (map rangeSize segs)"

fun cursorSize :: "'e Cursor \<Rightarrow> nat" where
  "cursorSize EmptyCursor = 0"
| "cursorSize (LeafCursor xs) = 0"
| "cursorSize (DisjointCursor n None segs) = 1 + sum_list (map rangeSize (drop (Suc n) segs))"
| "cursorSize (DisjointCursor n (Some c) segs) =
     2 + cursorSize c + sum_list (map rangeSize (drop (Suc n) segs))"

lemma Open_cursorSize: "Open r = Inr c \<Longrightarrow> cursorSize c < rangeSize r"
proof (induction r arbitrary: c)
  case (DisjointRanges f l segs)
  then show ?case
  proof (cases segs)
    case Nil
    with DisjointRanges.prems show ?thesis by simp
  next
    case (Cons s ss)
    with DisjointRanges.prems obtain c0 where
      c0: "Open s = Inr c0" and c: "c = DisjointCursor 0 (Some c0) segs"
      by (auto split: sum.splits)
    from DisjointRanges.IH [of s c0] c0 Cons have "cursorSize c0 < rangeSize s" by simp
    with c Cons show ?thesis by simp
  qed
qed auto

lemma nextCursor_cursorSize:
  assumes "nextCursor n (segs :: 'e SortedRange list) = Inr (n', cur')"
  shows "cursorSize (DisjointCursor n' cur' segs)
           < cursorSize (DisjointCursor n (Some (c :: 'e Cursor)) segs)"
proof (cases "Suc n < length segs")
  case True
  with assms obtain c1 where c1: "Open (segs ! Suc n) = Inr c1" and eq: "n' = Suc n" "cur' = Some c1"
    by (auto simp: nextCursor_def split: sum.splits)
  have "drop (Suc n) segs = segs ! Suc n # drop (Suc (Suc n)) segs"
    using True by (simp add: Cons_nth_drop_Suc)
  with Open_cursorSize [OF c1] eq show ?thesis by simp
next
  case False
  with assms have "n' = Suc n" "cur' = None" by (auto simp: nextCursor_def)
  with False show ?thesis by simp
qed

lemma nextCursor_measure:
  "nextCursor n (segs :: 'e SortedRange list) = Inr (n', cur') \<Longrightarrow>
   cursorSize (DisjointCursor n' cur' segs)
     < Suc (Suc (cursorSize (c :: 'e Cursor) + sum_list (map rangeSize (drop (Suc n) segs))))"
  using nextCursor_cursorSize [of n segs n' cur' c] by simp

text \<open>
  \<open>disjointCursor.Next\<close>: the loop runs while \<open>c.cursor\<close> is not nil; an iteration that reads
  nil from the current cursor stores \<open>nextCursor()\<close> and goes round again.
\<close>

function Next :: "'e Cursor \<Rightarrow> error + ('e option \<times> 'e Cursor)" where
  "Next EmptyCursor = Inr (None, EmptyCursor)"
| "Next (LeafCursor xs) =
     (case xs of
        [] \<Rightarrow> Inr (None, LeafCursor [])
      | x # xs' \<Rightarrow> Inr (Some x, LeafCursor xs'))"
| "Next (DisjointCursor n None segs) = Inr (None, DisjointCursor n None segs)"
| "Next (DisjointCursor n (Some c) segs) =
     (case Next c of
        Inl err \<Rightarrow> Inl err
      | Inr (Some x, c') \<Rightarrow> Inr (Some x, DisjointCursor n (Some c') segs)
      | Inr (None, c') \<Rightarrow>
          (case nextCursor n segs of
             Inl err \<Rightarrow> Inl err
           | Inr (n', cur') \<Rightarrow> Next (DisjointCursor n' cur' segs)))"
  by pat_completeness auto
termination
  by (relation "measure cursorSize") (auto intro: nextCursor_measure)

text \<open>
  \<open>disjointCursor.Fill\<close>. The buffer is given by its length \<open>m\<close>, and the result is the list
  of the elements written, in order, so that the count returned is its length. An
  iteration of the loop works on \<open>buffer[next:max]\<close> alone, so the iterations after the
  first are \<open>Fill\<close> on the rest of the buffer.
\<close>

function Fill :: "'e Cursor \<Rightarrow> nat \<Rightarrow> error + ('e list \<times> 'e Cursor)" where
  "Fill EmptyCursor m = Inr ([], EmptyCursor)"
| "Fill (LeafCursor xs) m = Inr (take m xs, LeafCursor (drop m xs))"
| "Fill (DisjointCursor n None segs) m = Inr ([], DisjointCursor n None segs)"
| "Fill (DisjointCursor n (Some c) segs) m =
     (if 0 < m then
        (case Fill c m of
           Inl err \<Rightarrow> Inl err
         | Inr (ys, c') \<Rightarrow>
             if length ys < m then
               (case nextCursor n segs of
                  Inl err \<Rightarrow> Inl err
                | Inr (n', cur') \<Rightarrow>
                    (case Fill (DisjointCursor n' cur' segs) (m - length ys) of
                       Inl err \<Rightarrow> Inl err
                     | Inr (zs, c'') \<Rightarrow> Inr (ys @ zs, c'')))
             else Inr (ys, DisjointCursor n (Some c') segs))
      else Inr ([], DisjointCursor n (Some c) segs))"
  by pat_completeness auto
termination
  by (relation "measure (\<lambda>(c, m). cursorSize c)") (auto intro: nextCursor_measure)

text \<open>Repeated calls on one cursor: \<open>k\<close> calls of \<open>Next\<close>, and one call of \<open>Fill\<close> for each
  buffer length of a list.\<close>

fun nexts :: "nat \<Rightarrow> 'e Cursor \<Rightarrow> error + ('e option list \<times> 'e Cursor)" where
  "nexts 0 c = Inr ([], c)"
| "nexts (Suc k) c =
     (case Next c of
        Inl err \<Rightarrow> Inl err
      | Inr (x, c') \<Rightarrow>
          (case nexts k c' of
             Inl err \<Rightarrow> Inl err
           | Inr (xs, c'') \<Rightarrow> Inr (x # xs, c'')))"

fun fills :: "nat list \<Rightarrow> 'e Cursor \<Rightarrow> error + ('e list list \<times> 'e Cursor)" where
  "fills [] c = Inr ([], c)"
| "fills (m # ms) c =
     (case Fill c m of
        Inl err \<Rightarrow> Inl err
      | Inr (ys, c') \<Rightarrow>
          (case fills ms c' of
             Inl err \<Rightarrow> Inl err
           | Inr (yss, c'') \<Rightarrow> Inr (ys # yss, c'')))"

section \<open>Segment lists as slices of backing arrays\<close>

text \<open>
  The definitions above read a slice as the list of its contents. To see what a call does
  to the storage of its receiver, this section keeps the backing arrays in a store: a
  slice is a window (array, offset, length, capacity) on one array, and the \<open>segments\<close>
  field of a \<open>disjointRanges\<close> is such a slice. The segments themselves stay values.
\<close>

datatype slice = Slice (sliceArray: nat) (sliceOffset: nat) (sliceLen: nat) (sliceCap: nat)

type_synonym 'e store = "'e SortedRange list list"

datatype 'e RangeRef = EmptyRangeRef | DisjointRangesRef "'e option" "'e option" slice

text \<open>The contents of a slice, its element at an index, and the slice expression
  \<open>s[lo:hi]\<close>, which keeps the array and the capacity behind \<open>lo\<close>.\<close>

definition sliceContents :: "'e store \<Rightarrow> slice \<Rightarrow> 'e SortedRange list" where
  "sliceContents st s = take (sliceLen s) (drop (sliceOffset s) (st ! sliceArray s))"

definition sliceAt :: "'e store \<Rightarrow> slice \<Rightarrow> nat \<Rightarrow> 'e SortedRange" where
  "sliceAt st s i = st ! sliceArray s ! (sliceOffset s + i)"

definition subslice :: "slice \<Rightarrow> nat \<Rightarrow> nat \<Rightarrow> slice" where
  "subslice s lo hi = Slice (sliceArray s) (sliceOffset s + lo) (hi - lo) (sliceCap s - lo)"

text \<open>
  \<open>append(s, x)\<close>: when the capacity of \<open>s\<close> exceeds its length the element is written
  into the backing array of \<open>s\<close>, behind its last element; otherwise the contents are
  copied to a new array. \<open>appendAll\<close> is \<open>append(s, xs...)\<close> and \<open>sliceLiteral\<close> is a
  slice literal, on an array of its own.
\<close>

definition append1 :: "'e store \<Rightarrow> slice \<Rightarrow> 'e SortedRange \<Rightarrow> 'e store \<times> slice" where
  "append1 st s x =
     (if sliceLen s < sliceCap s then
        (st[sliceArray s := (st ! sliceArray s)[sliceOffset s + sliceLen s := x]],
         Slice (sliceArray s) (sliceOffset s) (sliceLen s + 1) (sliceCap s))
      else
        (st @ [sliceContents st s @ [x]],
         Slice (length st) 0 (sliceLen s + 1) (sliceLen s + 1)))"

fun appendAll :: "'e store \<Rightarrow> slice \<Rightarrow> 'e SortedRange list \<Rightarrow> 'e store \<times> slice" where
  "appendAll st s [] = (st, s)"
| "appendAll st s (x # xs) = (case append1 st s x of (st', s') \<Rightarrow> appendAll st' s' xs)"

definition sliceLiteral :: "'e store \<Rightarrow> 'e SortedRange list \<Rightarrow> 'e store \<times> slice" where
  "sliceLiteral st xs = (st @ [xs], Slice (length st) 0 (length xs) (length xs))"

text \<open>The value a reference stands for in a store.\<close>

fun deref :: "'e store \<Rightarrow> 'e RangeRef \<Rightarrow> 'e SortedRange" where
  "deref st EmptyRangeRef = EmptyRange"
| "deref st (DisjointRangesRef f l s) = DisjointRanges f l (sliceContents st s)"

text \<open>
  \<open>disjointRanges.Partition\<close> on the store. The loop is at index \<open>i\<close> of \<open>d.segments\<close>;
  \<open>d.segments[0:i]\<close> and \<open>d.segments[i:]\<close> are windows on the array of \<open>d\<close>, and
  \<open>append(d.segments[0:i], p1)\<close> finds capacity there, since \<open>i\<close> is less than the length.
  The call on the segment \<open>r\<close> itself is the one on values.
\<close>

function PartitionRefLoop ::
  "(('k::linorder) \<times> 'v) store \<Rightarrow> ('k \<times> 'v) option \<Rightarrow> ('k \<times> 'v) option \<Rightarrow> slice \<Rightarrow> nat \<Rightarrow>
   ('k \<times> 'v) option \<Rightarrow> Order \<Rightarrow>
   error + ((('k \<times> 'v) RangeRef \<times> ('k \<times> 'v) RangeRef) \<times> ('k \<times> 'v) store)" where
  "PartitionRefLoop st f l s i e o' =
     (if \<not> i < sliceLen s then Inr ((DisjointRangesRef f l s, EmptyRangeRef), st)
      else
        let r = sliceAt st s i in
        if First r = None then Inl (Panic ''r.First() is nil!'')
        else if Last r = None then Inl (Panic ''r.Last() is nil!'')
        else
          case andAlso (applyOrder o' e (First r)) (notE (applyOrder o' (First r) e)) of
            Inl err \<Rightarrow> Inl err
          | Inr True \<Rightarrow>
              (if i = 0 then Inl IndexOutOfRange
               else Inr ((DisjointRangesRef f (Last (sliceAt st s (i - 1))) (subslice s 0 i),
                          DisjointRangesRef (First r) l (subslice s i (sliceLen s))), st))
          | Inr False \<Rightarrow>
              (case andAlso (applyOrder o' (First r) e) (applyOrder o' e (Last r)) of
                 Inl err \<Rightarrow> Inl err
               | Inr True \<Rightarrow>
                   (case Partition r e o' of
                      Inl err \<Rightarrow> Inl err
                    | Inr (p1, p2) \<Rightarrow>
                        if Limit p2 = 0 then
                          (if Last p1 = None then Inl (Panic ''p1.Last() is nil!'')
                           else
                             case append1 st (subslice s 0 i) p1 of (st1, s1) \<Rightarrow>
                               Inr ((DisjointRangesRef f (Last p1) s1,
                                     if i + 1 < sliceLen s
                                     then DisjointRangesRef (First (sliceAt st1 s (i + 1))) l
                                            (subslice s (i + 1) (sliceLen s))
                                     else EmptyRangeRef), st1))
                        else
                          (if Last p1 = None then Inl (Panic ''p1.Last() is nil!'')
                           else if First p2 = None then Inl (Panic ''p2.First() is nil!'')
                           else
                             case append1 st (subslice s 0 i) p1 of (st1, s1) \<Rightarrow>
                             case sliceLiteral st1 [p2] of (st2, s0) \<Rightarrow>
                             case appendAll st2 s0 (sliceContents st2 (subslice s (i + 1) (sliceLen s))) of
                               (st3, s2) \<Rightarrow>
                                 Inr ((DisjointRangesRef f (Last p1) s1,
                                       DisjointRangesRef (First p2) l s2), st3)))
               | Inr False \<Rightarrow> PartitionRefLoop st f l s (i + 1) e o'))"
  by pat_completeness auto
termination
  by (relation "measure (\<lambda>(st, f, l, s, i, e, o'). sliceLen s - i)") auto

fun PartitionRef ::
  "(('k::linorder) \<times> 'v) store \<Rightarrow> ('k \<times> 'v) RangeRef \<Rightarrow> ('k \<times> 'v) option \<Rightarrow> Order \<Rightarrow>
   error + ((('k \<times> 'v) RangeRef \<times> ('k \<times> 'v) RangeRef) \<times> ('k \<times> 'v) store)" where
  "PartitionRef st EmptyRangeRef e o' = Inr ((EmptyRangeRef, EmptyRangeRef), st)"
| "PartitionRef st (DisjointRangesRef f l s) e o' =
     (case applyOrder o' f e of
        Inl err \<Rightarrow> Inl err
      | Inr c \<Rightarrow>
          if \<not> c then Inr ((EmptyRangeRef, DisjointRangesRef f l s), st)
          else PartitionRefLoop st f l s 0 e o')"

text \<open>A slice lies inside its array; and the values of the two references a call
  returns, read in the store it leaves.\<close>

definition sliceValid :: "'e store \<Rightarrow> slice \<Rightarrow> bool" where
  "sliceValid st s =
     (sliceArray s < length st \<and> sliceLen s \<le> sliceCap s \<and>
      sliceOffset s + sliceCap s \<le> length (st ! sliceArray s))"

fun resultValue :: "error + (('e RangeRef \<times> 'e RangeRef) \<times> 'e store) \<Rightarrow>
    error + ('e SortedRange \<times> 'e SortedRange)" where
  "resultValue (Inl err) = Inl err"
| "resultValue (Inr ((r1, r2), st)) = Inr (deref st r1, deref st r2)"

section \<open>Element sequences and invariants\<close>

text \<open>The element sequence a range stands for: what a cursor over it yields.\<close>

fun elems :: "'e SortedRange \<Rightarrow> 'e list" where
  "elems EmptyRange = []"
| "elems (Leaf xs) = xs"
| "elems (DisjointRanges f l segs) = concat (map elems segs)"

text \<open>Every composite in a range, at any depth, has at least one segment.\<close>

fun hasSegments :: "'e SortedRange \<Rightarrow> bool" where
  "hasSegments (DisjointRanges f l segs) = (segs \<noteq> [] \<and> list_all hasSegments segs)"
| "hasSegments EmptyRange = True"
| "hasSegments (Leaf xs) = True"

text \<open>The elements a cursor has still to produce, and the cursors whose pending segments
  all have segments.\<close>

fun remaining :: "'e Cursor \<Rightarrow> 'e list" where
  "remaining EmptyCursor = []"
| "remaining (LeafCursor xs) = xs"
| "remaining (DisjointCursor n None segs) = []"
| "remaining (DisjointCursor n (Some c) segs) =
     remaining c @ concat (map elems (drop (Suc n) segs))"

fun cursorOk :: "'e Cursor \<Rightarrow> bool" where
  "cursorOk (DisjointCursor n (Some c) segs) =
     (cursorOk c \<and> list_all hasSegments (drop (Suc n) segs))"
| "cursorOk (DisjointCursor n None segs) = True"
| "cursorOk EmptyCursor = True"
| "cursorOk (LeafCursor xs) = True"

text \<open>A sequence cut into the buffers of successive \<open>Fill\<close> calls.\<close>

fun chunks :: "nat list \<Rightarrow> 'e list \<Rightarrow> 'e list list" where
  "chunks [] xs = []"
| "chunks (m # ms) xs = take m xs # chunks ms (drop m xs)"

fun headOption :: "'e list \<Rightarrow> 'e option" where
  "headOption [] = None"
| "headOption (x # xs) = Some x"

text \<open>
  The part of well-formedness that \<open>Partition\<close> and \<open>merge\<close> rely on to run: a primitive
  range is sorted by key; a composite has at least one segment, every segment is itself
  consistent and not empty, the cached \<open>first\<close> is the first bound of the first segment
  and the cached \<open>last\<close> is not nil.
\<close>

fun consistent :: "(('k::linorder) \<times> 'v) SortedRange \<Rightarrow> bool" where
  "consistent EmptyRange = True"
| "consistent (Leaf xs) = sorted (map fst xs)"
| "consistent (DisjointRanges f l segs) =
     (segs \<noteq> [] \<and> list_all (\<lambda>s. consistent s \<and> 0 < Limit s) segs \<and>
      First (hd segs) = f \<and> l \<noteq> None)"

text \<open>What \<open>Partition\<close> guarantees about its two parts, for a pivot \<open>p\<close>; and the
  precondition and the postcondition of its loop.\<close>

definition partOk :: "(('k::linorder) \<times> 'v) SortedRange \<Rightarrow> 'k \<times> 'v \<Rightarrow> Order \<Rightarrow>
    ('k \<times> 'v) SortedRange \<Rightarrow> ('k \<times> 'v) SortedRange \<Rightarrow> bool" where
  "partOk r p o' p1 p2 =
     (consistent p1 \<and> consistent p2 \<and> elems p1 @ elems p2 = elems r \<and>
      (0 < Limit r \<longrightarrow>
         (case First r of
            None \<Rightarrow> True
          | Some x \<Rightarrow>
              if holds o' x p then 0 < Limit p1 \<and> First p1 = First r
              else Limit p1 = 0 \<and> p2 = r)))"

definition loopPre :: "(('k::linorder) \<times> 'v) option \<Rightarrow> ('k \<times> 'v) option \<Rightarrow>
    ('k \<times> 'v) SortedRange list \<Rightarrow> ('k \<times> 'v) SortedRange list \<Rightarrow> 'k \<times> 'v \<Rightarrow> Order \<Rightarrow> bool" where
  "loopPre f l ls rs p o' =
     (list_all (\<lambda>s. consistent s \<and> 0 < Limit s) (ls @ rs) \<and> ls @ rs \<noteq> [] \<and>
      First (hd (ls @ rs)) = f \<and> l \<noteq> None \<and>
      (ls = [] \<longrightarrow> (\<exists>x. f = Some x \<and> holds o' x p)))"

definition loopPost :: "(('k::linorder) \<times> 'v) option \<Rightarrow>
    ('k \<times> 'v) SortedRange list \<Rightarrow> ('k \<times> 'v) SortedRange list \<Rightarrow>
    ('k \<times> 'v) SortedRange \<Rightarrow> ('k \<times> 'v) SortedRange \<Rightarrow> bool" where
  "loopPost f ls rs p1 p2 =
     (consistent p1 \<and> consistent p2 \<and>
      elems p1 @ elems p2 = concat (map elems (ls @ rs)) \<and>
      0 < Limit p1 \<and> First p1 = f)"




text \<open>
  The invariants of a composite. I1: the elements of a segment are strictly before the
  elements of the next segment. I2: the cached bounds are the first bound of the first
  segment and the last bound of the last segment. I3: no segment is a composite. A
  well-formed range satisfies all of them, is consistent, and has its elements in order.
\<close>

fun isComposite :: "'e SortedRange \<Rightarrow> bool" where
  "isComposite (DisjointRanges f l segs) = True"
| "isComposite EmptyRange = False"
| "isComposite (Leaf xs) = False"

fun adjacentBefore :: "(('k::linorder) \<times> 'v) SortedRange list \<Rightarrow> bool" where
  "adjacentBefore (s # t # rest) =
     (list_all (\<lambda>x. list_all (\<lambda>y. Less x y) (elems t)) (elems s) \<and> adjacentBefore (t # rest))"
| "adjacentBefore [s] = True"
| "adjacentBefore [] = True"

fun invariantI1 :: "(('k::linorder) \<times> 'v) SortedRange \<Rightarrow> bool" where
  "invariantI1 (DisjointRanges f l segs) = (adjacentBefore segs \<and> list_all invariantI1 segs)"
| "invariantI1 EmptyRange = True"
| "invariantI1 (Leaf xs) = True"

fun invariantI2 :: "'e SortedRange \<Rightarrow> bool" where
  "invariantI2 (DisjointRanges f l segs) =
     (segs \<noteq> [] \<and> f = First (hd segs) \<and> l = Last (last segs) \<and> list_all invariantI2 segs)"
| "invariantI2 EmptyRange = True"
| "invariantI2 (Leaf xs) = True"

fun invariantI3 :: "'e SortedRange \<Rightarrow> bool" where
  "invariantI3 (DisjointRanges f l segs) = list_all (\<lambda>s. \<not> isComposite s) segs"
| "invariantI3 EmptyRange = True"
| "invariantI3 (Leaf xs) = True"

definition wellFormed :: "(('k::linorder) \<times> 'v) SortedRange \<Rightarrow> bool" where
  "wellFormed r =
     (consistent r \<and> sorted (map fst (elems r)) \<and> invariantI1 r \<and> invariantI2 r \<and> invariantI3 r)"

text \<open>A segment of a well-formed composite: a primitive range, not empty and sorted.\<close>

fun sortedLeaf :: "(('k::linorder) \<times> 'v) SortedRange \<Rightarrow> bool" where
  "sortedLeaf (Leaf xs) = (xs \<noteq> [] \<and> sorted (map fst xs))"
| "sortedLeaf EmptyRange = False"
| "sortedLeaf (DisjointRanges f l segs) = False"

section \<open>Example data\<close>

text \<open>Modelled from the spec: an instance of the overlap-merge primitive, the sorted
  combination of the elements of both operands (both kept) as one primitive range.\<close>

fun mergeElems :: "(('k::linorder) \<times> 'v) list \<Rightarrow> ('k \<times> 'v) list \<Rightarrow> ('k \<times> 'v) list" where
  "mergeElems [] ys = ys"
| "mergeElems xs [] = xs"
| "mergeElems (x # xs) (y # ys) =
     (if Less x y then x # mergeElems xs (y # ys) else y # mergeElems (x # xs) ys)"

definition leafMergeable :: "(('k::linorder) \<times> 'v) option \<Rightarrow> ('k \<times> 'v) option \<Rightarrow>
    ('k \<times> 'v) SortedRange \<Rightarrow> ('k \<times> 'v) SortedRange \<Rightarrow> ('k \<times> 'v) SortedRange" where
  "leafMergeable f l x y = Leaf (mergeElems (elems x) (elems y))"

text \<open>The composite over the segments \<open>{1,2}\<close> and \<open>{3,4}\<close>.\<close>

definition boundaryExample :: "(int \<times> string) SortedRange" where
  "boundaryExample =
     DisjointRanges (Some (1, ''a'')) (Some (4, ''d''))
       [Leaf [(1, ''a''), (2, ''b'')], Leaf [(3, ''c''), (4, ''d'')]]"



text \<open>The composite \<open>merge\<close> returns for the ranges \<open>{1,2}\<close> and \<open>{5,6}\<close>.\<close>

definition gapExample :: "(int \<times> string) SortedRange" where
  "gapExample =
     DisjointRanges (Some (1, ''a'')) (Some (6, ''d''))
       [Leaf [(1, ''a''), (2, ''b'')], Leaf [(5, ''c''), (6, ''d'')]]"

text \<open>A composite over \<open>{1,2,3}\<close> and \<open>{5,6}\<close> in a store, its segments in an array of
  their own as the slice literal of \<open>merge\<close> leaves them; and the store after a call.\<close>

definition store0 :: "(int \<times> string) store" where
  "store0 = [[Leaf [(1, ''a''), (2, ''b''), (3, ''c'')], Leaf [(5, ''e''), (6, ''f'')]]]"

definition ref0 :: "(int \<times> string) RangeRef" where
  "ref0 = DisjointRangesRef (Some (1, ''a'')) (Some (6, ''f'')) (Slice 0 0 2 2)"


definition store1 :: "(int \<times> string) store" where
  "store1 =
     [[Leaf [(1, ''a''), (2, ''b'')], Leaf [(5, ''e''), (6, ''f'')]],
      [Leaf [(3, ''c'')]],
      [Leaf [(3, ''c'')], Leaf [(5, ''e''), (6, ''f'')]]]"

section \<open>Selection helpers and the identity law of merge\<close>

lemma Limit_elems: "Limit r = length (elems r)"
  by (induction r) (simp_all add: length_concat comp_def cong: map_cong)

text \<open>
  Claim C10. \<open>selectFirst\<close> returns the lesser of the two first bounds and \<open>selectLast\<close> the
  greater of the two last bounds; a nil bound defers to the other operand (nil when both
  are), and when neither bound is less than the other the bound of \<open>b\<close> is returned.
\<close>

theorem select_bounds:
  "(First a = None \<longrightarrow> selectFirst a b = First b) \<and>
   (First b = None \<longrightarrow> selectFirst a b = First a) \<and>
   (\<forall>x y. First a = Some x \<and> First b = Some y \<longrightarrow>
      (Less x y \<longrightarrow> selectFirst a b = Some x) \<and>
      (\<not> Less x y \<longrightarrow> selectFirst a b = Some y) \<and>
      (\<forall>z. selectFirst a b = Some z \<longrightarrow> \<not> Less x z \<and> \<not> Less y z)) \<and>
   (Last a = None \<longrightarrow> selectLast a b = Last b) \<and>
   (Last b = None \<longrightarrow> selectLast a b = Last a) \<and>
   (\<forall>x y. Last a = Some x \<and> Last b = Some y \<longrightarrow>
      (Less y x \<longrightarrow> selectLast a b = Some x) \<and>
      (\<not> Less y x \<longrightarrow> selectLast a b = Some y) \<and>
      (\<forall>z. selectLast a b = Some z \<longrightarrow> \<not> Less z x \<and> \<not> Less z y))"
  by (auto simp: selectFirst_def selectLast_def Less_def split: option.splits)

theorem select_bounds_witness:
  "First (Leaf [(1::int, ''a''), (4, ''c'')]) = Some (1, ''a'') \<and>
   First (Leaf [(1::int, ''b''), (3, ''d'')]) = Some (1, ''b'') \<and>
   \<not> Less (1::int, ''a'') (1, ''b'') \<and>
   selectFirst (Leaf [(1::int, ''a''), (4, ''c'')]) (Leaf [(1, ''b''), (3, ''d'')]) = Some (1, ''b'') \<and>
   Less (3::int, ''d'') (4, ''c'') \<and>
   selectLast (Leaf [(1::int, ''a''), (4, ''c'')]) (Leaf [(1, ''b''), (3, ''d'')]) = Some (4, ''c'') \<and>
   selectFirst (EmptyRange :: (int \<times> string) SortedRange) (Leaf [(1, ''b'')]) = Some (1, ''b'') \<and>
   selectLast (Leaf [(1::int, ''b'')]) EmptyRange = Some (1, ''b'')"
  using select_bounds [of "Leaf [(1::int, ''a''), (4, ''c'')]" "Leaf [(1, ''b''), (3, ''d'')]"]
    select_bounds [of "EmptyRange :: (int \<times> string) SortedRange" "Leaf [(1, ''b'')]"]
    select_bounds [of "Leaf [(1::int, ''b'')]" "EmptyRange"]
  by (simp add: Less_def)

text \<open>
  Claim C5, as amended. When \<open>a.Limit()\<close> is 0, \<open>merge a r\<close> is \<open>r\<close> itself. When
  \<open>b.Limit()\<close> is 0 and \<open>r.Limit()\<close> is not, \<open>merge r b\<close> is \<open>r\<close> itself; when both are 0
  it is \<open>b\<close>, whose element sequence is empty like that of \<open>r\<close>. So \<open>merge EmptyRange r\<close>
  and \<open>merge r EmptyRange\<close> both stand for the element sequence of \<open>r\<close>.
\<close>

theorem merge_identity:
  "(Limit a = 0 \<longrightarrow> merge nmr a r = Inr r) \<and>
   (Limit b = 0 \<and> Limit r \<noteq> 0 \<longrightarrow> merge nmr r b = Inr r) \<and>
   (Limit b = 0 \<and> Limit r = 0 \<longrightarrow> merge nmr r b = Inr b \<and> elems b = elems r) \<and>
   merge nmr EmptyRange r = Inr r \<and>
   (\<exists>r'. merge nmr r EmptyRange = Inr r' \<and> elems r' = elems r)"
  using Limit_elems [of r] Limit_elems [of b] by (auto simp: merge_def)

theorem merge_identity_witness:
  "Limit (Leaf ([] :: (int \<times> string) list)) = 0 \<and>
   merge leafMergeable (Leaf []) (Leaf [(1::int, ''a'')]) = Inr (Leaf [(1, ''a'')]) \<and>
   Limit (Leaf [(1::int, ''a'')]) \<noteq> 0 \<and>
   merge leafMergeable (Leaf [(1::int, ''a'')]) (Leaf []) = Inr (Leaf [(1, ''a'')])"
  using merge_identity [of "Leaf []" leafMergeable "Leaf [(1::int, ''a'')]" "Leaf []"]
  by simp

text \<open>
  Claim C5 as stated fails: with \<open>r\<close> an empty primitive range and \<open>b = EmptyRange\<close>,
  \<open>b.Limit()\<close> is 0 and \<open>merge r b\<close> is \<open>b\<close>, not \<open>r\<close>.
\<close>

theorem merge_returns_operand_counterexample:
  "Limit (EmptyRange :: (int \<times> string) SortedRange) = 0 \<and>
   merge leafMergeable (Leaf []) (EmptyRange :: (int \<times> string) SortedRange) \<noteq> Inr (Leaf [])"
  by (simp add: merge_def)

section \<open>The cursor of a composite\<close>

lemma Open_ok:
  "hasSegments r \<Longrightarrow> \<exists>c. Open r = Inr c \<and> cursorOk c \<and> remaining c = elems r"
proof (induction r)
  case (DisjointRanges f l segs)
  then obtain s ss where segs: "segs = s # ss" by (cases segs) auto
  with DisjointRanges.prems have "hasSegments s" and ss: "list_all hasSegments ss" by auto
  with DisjointRanges.IH [of s] segs obtain c0 where
    "Open s = Inr c0" "cursorOk c0" "remaining c0 = elems s" by auto
  with segs ss show ?case by simp
qed auto

lemma nextCursor_ok:
  assumes "list_all hasSegments (drop (Suc n) segs)"
  shows "\<exists>n' cur'. nextCursor n segs = Inr (n', cur') \<and> cursorOk (DisjointCursor n' cur' segs) \<and>
           remaining (DisjointCursor n' cur' segs) = concat (map elems (drop (Suc n) segs))"
proof (cases "Suc n < length segs")
  case True
  then have d: "drop (Suc n) segs = segs ! Suc n # drop (Suc (Suc n)) segs"
    by (simp add: Cons_nth_drop_Suc)
  with assms have "hasSegments (segs ! Suc n)" and rest: "list_all hasSegments (drop (Suc (Suc n)) segs)"
    by auto
  from Open_ok [OF this(1)] obtain c1 where
    "Open (segs ! Suc n) = Inr c1" "cursorOk c1" "remaining c1 = elems (segs ! Suc n)" by auto
  with True d rest show ?thesis by (simp add: nextCursor_def)
next
  case False
  then show ?thesis by (simp add: nextCursor_def)
qed

lemma Next_ok:
  "cursorOk c \<Longrightarrow>
   \<exists>c'. Next c = Inr (headOption (remaining c), c') \<and> cursorOk c' \<and> remaining c' = tl (remaining c)"
proof (induction c rule: Next.induct)
  case 1
  then show ?case by simp
next
  case (2 xs)
  then show ?case by (cases xs) auto
next
  case (3 n segs)
  then show ?case by simp
next
  case (4 n c segs)
  from "4.prems" have okc: "cursorOk c" and oks: "list_all hasSegments (drop (Suc n) segs)" by auto
  from "4.IH"(1) [OF okc] obtain c' where
    nx: "Next c = Inr (headOption (remaining c), c')" and okc': "cursorOk c'"
    and rem: "remaining c' = tl (remaining c)" by auto
  show ?case
  proof (cases "remaining c")
    case Nil
    from nextCursor_ok [OF oks] obtain n' cur' where
      nc: "nextCursor n segs = Inr (n', cur')" and ok': "cursorOk (DisjointCursor n' cur' segs)"
      and rem': "remaining (DisjointCursor n' cur' segs) = concat (map elems (drop (Suc n) segs))"
      by auto
    from nx Nil have nx0: "Next c = Inr (None, c')" by simp
    from "4.IH"(2) [OF nx0 _ _ nc _ ok'] obtain c'' where
      "Next (DisjointCursor n' cur' segs) = Inr (headOption (remaining (DisjointCursor n' cur' segs)), c'')"
      "cursorOk c''" "remaining c'' = tl (remaining (DisjointCursor n' cur' segs))"
      by auto
    with nx0 nc rem' Nil show ?thesis by simp
  next
    case (Cons x xs)
    with nx okc' rem oks show ?thesis by simp
  qed
qed

lemma Fill_ok:
  "cursorOk c \<Longrightarrow>
   \<exists>c'. Fill c m = Inr (take m (remaining c), c') \<and> cursorOk c' \<and> remaining c' = drop m (remaining c)"
proof (induction c m rule: Fill.induct)
  case (4 n c segs m)
  from "4.prems" have okc: "cursorOk c" and oks: "list_all hasSegments (drop (Suc n) segs)" by auto
  let ?rest = "concat (map elems (drop (Suc n) segs))"
  show ?case
  proof (cases "0 < m")
    case False
    with "4.prems" show ?thesis by simp
  next
    case True
    from "4.IH"(1) [OF True okc] obtain c' where
      fl: "Fill c m = Inr (take m (remaining c), c')" and okc': "cursorOk c'"
      and rem: "remaining c' = drop m (remaining c)" by auto
    show ?thesis
    proof (cases "length (remaining c) < m")
      case short: True
      from nextCursor_ok [OF oks] obtain n' cur' where
        nc: "nextCursor n segs = Inr (n', cur')" and ok': "cursorOk (DisjointCursor n' cur' segs)"
        and rem': "remaining (DisjointCursor n' cur' segs) = ?rest"
        by auto
      from short have len: "length (take m (remaining c)) < m" by simp
      from "4.IH"(2) [OF True fl _ len nc _ ok'] obtain c'' where
        "Fill (DisjointCursor n' cur' segs) (m - length (take m (remaining c)))
           = Inr (take (m - length (take m (remaining c))) (remaining (DisjointCursor n' cur' segs)), c'')"
        "cursorOk c''"
        "remaining c'' = drop (m - length (take m (remaining c))) (remaining (DisjointCursor n' cur' segs))"
        by auto
      with True fl len nc rem' short show ?thesis by simp
    next
      case long: False
      with True fl okc' rem oks show ?thesis by simp
    qed
  qed
qed auto

lemma nexts_ok:
  "cursorOk c \<Longrightarrow>
   \<exists>c'. nexts k c = Inr (map Some (take k (remaining c)) @ replicate (k - length (remaining c)) None, c') \<and>
        cursorOk c' \<and> remaining c' = drop k (remaining c)"
proof (induction k arbitrary: c)
  case 0
  then show ?case by simp
next
  case (Suc k)
  from Next_ok [OF Suc.prems] obtain c1 where
    nx: "Next c = Inr (headOption (remaining c), c1)" and ok1: "cursorOk c1"
    and rem1: "remaining c1 = tl (remaining c)" by auto
  from Suc.IH [OF ok1] obtain c2 where
    ns: "nexts k c1 = Inr (map Some (take k (remaining c1)) @ replicate (k - length (remaining c1)) None, c2)"
    and ok2: "cursorOk c2" and rem2: "remaining c2 = drop k (remaining c1)" by auto
  show ?case
  proof (cases "remaining c")
    case Nil
    with nx ns ok2 rem1 rem2 show ?thesis by (simp add: replicate_Suc [symmetric] del: replicate_Suc)
  next
    case (Cons x xs)
    with nx ns ok2 rem1 rem2 show ?thesis by simp
  qed
qed

lemma fills_ok:
  "cursorOk c \<Longrightarrow>
   \<exists>c'. fills ms c = Inr (chunks ms (remaining c), c') \<and> cursorOk c' \<and>
        remaining c' = drop (sum_list ms) (remaining c)"
proof (induction ms arbitrary: c)
  case Nil
  then show ?case by simp
next
  case (Cons m ms)
  from Fill_ok [OF Cons.prems, of m] obtain c1 where
    fl: "Fill c m = Inr (take m (remaining c), c1)" and ok1: "cursorOk c1"
    and rem1: "remaining c1 = drop m (remaining c)" by auto
  from Cons.IH [OF ok1] obtain c2 where
    "fills ms c1 = Inr (chunks ms (remaining c1), c2)" "cursorOk c2"
    "remaining c2 = drop (sum_list ms) (remaining c1)" by auto
  with fl rem1 show ?case by (simp add: add.commute)
qed

lemma concat_chunks: "concat (chunks ms xs) = take (sum_list ms) xs"
proof (induction ms arbitrary: xs)
  case (Cons m ms)
  have "take m xs @ take (sum_list ms) (drop m xs) = take (m + sum_list ms) xs"
    by (simp add: take_add)
  with Cons show ?case by simp
qed simp

lemma takeWhile_Some:
  "takeWhile (\<lambda>x. x \<noteq> None) (map Some xs @ replicate n None) = map Some xs"
  by (induction xs) (simp_all add: takeWhile_replicate)
text \<open>
  Claim C6. A composite whose composites all have segments opens, and for every list of
  buffer lengths \<open>ms\<close>: as many \<open>Next\<close> calls as the buffers hold yield the elements of the
  composite in order and then nil; the \<open>Fill\<close> calls write the same elements, cut at the
  buffer lengths (a buffer of length 1 and a buffer across a segment boundary included),
  each returning the count it wrote; the elements written are the elements \<open>Next\<close> yields
  before nil; and once the elements are used up \<open>Fill\<close> returns 0.
\<close>

theorem cursor_fill_equivalence:
  assumes "hasSegments d"
  shows "\<exists>c. Open d = Inr c \<and>
           (\<forall>ms. \<exists>xs c1 yss c2.
              nexts (sum_list ms) c = Inr (xs, c1) \<and> fills ms c = Inr (yss, c2) \<and>
              xs = map Some (take (sum_list ms) (elems d))
                     @ replicate (sum_list ms - length (elems d)) None \<and>
              yss = chunks ms (elems d) \<and>
              map Some (concat yss) = takeWhile (\<lambda>x. x \<noteq> None) xs \<and>
              (\<forall>m. length (elems d) \<le> sum_list ms \<longrightarrow> (\<exists>c3. Fill c2 m = Inr ([], c3))))"
proof -
  from Open_ok [OF assms] obtain c where
    op: "Open d = Inr c" and ok: "cursorOk c" and rem: "remaining c = elems d" by auto
  have "\<exists>xs c1 yss c2.
          nexts (sum_list ms) c = Inr (xs, c1) \<and> fills ms c = Inr (yss, c2) \<and>
          xs = map Some (take (sum_list ms) (elems d))
                 @ replicate (sum_list ms - length (elems d)) None \<and>
          yss = chunks ms (elems d) \<and>
          map Some (concat yss) = takeWhile (\<lambda>x. x \<noteq> None) xs \<and>
          (\<forall>m. length (elems d) \<le> sum_list ms \<longrightarrow> (\<exists>c3. Fill c2 m = Inr ([], c3)))" for ms
  proof -
    from nexts_ok [OF ok, of "sum_list ms"] rem obtain c1 where
      n: "nexts (sum_list ms) c = Inr (map Some (take (sum_list ms) (elems d))
                 @ replicate (sum_list ms - length (elems d)) None, c1)" by auto
    from fills_ok [OF ok, of ms] rem obtain c2 where
      f: "fills ms c = Inr (chunks ms (elems d), c2)" and ok2: "cursorOk c2"
      and rem2: "remaining c2 = drop (sum_list ms) (elems d)" by auto
    have eq: "map Some (concat (chunks ms (elems d)))
                = takeWhile (\<lambda>x. x \<noteq> None) (map Some (take (sum_list ms) (elems d))
                    @ replicate (sum_list ms - length (elems d)) None)"
      by (simp only: takeWhile_Some concat_chunks)
    have ex: "\<exists>c3. Fill c2 m = Inr ([], c3)" if "length (elems d) \<le> sum_list ms" for m
      using Fill_ok [OF ok2, of m] rem2 that by auto
    from n f eq ex show ?thesis by blast
  qed
  with op show ?thesis by blast
qed

theorem cursor_fill_equivalence_witness:
  "hasSegments boundaryExample \<and>
   (\<exists>c. Open boundaryExample = Inr c \<and>
      (\<exists>c1. nexts 6 c = Inr ([Some (1, ''a''), Some (2, ''b''), Some (3, ''c''), Some (4, ''d''), None, None], c1)) \<and>
      (\<exists>c2. fills [3, 3] c = Inr ([[(1, ''a''), (2, ''b''), (3, ''c'')], [(4, ''d'')]], c2) \<and>
         (\<exists>c3. Fill c2 1 = Inr ([], c3))))"
proof -
  have h: "hasSegments boundaryExample" by (simp add: boundaryExample_def)
  from cursor_fill_equivalence [OF h] obtain c where
    op: "Open boundaryExample = Inr c" and
    all: "\<forall>ms. \<exists>xs c1 yss c2.
              nexts (sum_list ms) c = Inr (xs, c1) \<and> fills ms c = Inr (yss, c2) \<and>
              xs = map Some (take (sum_list ms) (elems boundaryExample))
                     @ replicate (sum_list ms - length (elems boundaryExample)) None \<and>
              yss = chunks ms (elems boundaryExample) \<and>
              map Some (concat yss) = takeWhile (\<lambda>x. x \<noteq> None) xs \<and>
              (\<forall>m. length (elems boundaryExample) \<le> sum_list ms \<longrightarrow> (\<exists>c3. Fill c2 m = Inr ([], c3)))"
    by blast
  from all [rule_format, of "[3, 3]"] obtain xs c1 yss c2 where
    n: "nexts (sum_list [3, 3]) c = Inr (xs, c1)" and f: "fills [3, 3] c = Inr (yss, c2)"
    and xs: "xs = map Some (take (sum_list [3, 3]) (elems boundaryExample))
                     @ replicate (sum_list [3, 3] - length (elems boundaryExample)) None"
    and yss: "yss = chunks [3, 3] (elems boundaryExample)"
    and ex: "\<forall>m. length (elems boundaryExample) \<le> sum_list [3, 3] \<longrightarrow> (\<exists>c3. Fill c2 m = Inr ([], c3))"
    by blast
  have e: "elems boundaryExample = [(1, ''a''), (2, ''b''), (3, ''c''), (4, ''d'')]"
    by (simp add: boundaryExample_def)
  have s: "sum_list [3, 3 :: nat] = 6" by simp
  have xs': "xs = [Some (1, ''a''), Some (2, ''b''), Some (3, ''c''), Some (4, ''d''), None, None]"
    unfolding xs e s by (simp add: numeral_eq_Suc)
  have yss': "yss = [[(1, ''a''), (2, ''b''), (3, ''c'')], [(4, ''d'')]]"
    unfolding yss e by (simp add: numeral_eq_Suc)
  from ex e have "\<exists>c3. Fill c2 1 = Inr ([], c3)" by simp
  with h op n f xs' yss' s show ?thesis by auto
qed


section \<open>Partition keeps ranges consistent\<close>

lemma consistent_bounds:
  "consistent r \<Longrightarrow> 0 < Limit r \<Longrightarrow> First r \<noteq> None \<and> Last r \<noteq> None"
proof (induction r)
  case (DisjointRanges f l segs)
  then obtain s ss where segs: "segs = s # ss" by (cases segs) auto
  with DisjointRanges.prems have "consistent s" "0 < Limit s" by auto
  with DisjointRanges.IH [of s] segs have "First s \<noteq> None" by simp
  with DisjointRanges.prems segs show ?case by simp
qed auto

lemma holds_mono:
  "holds o' y p \<Longrightarrow> fst x \<le> fst y \<Longrightarrow> holds o' x p"
  by (cases o') (auto simp: Less_def)

lemma filter_holds_none:
  "sorted (map fst (x # xs)) \<Longrightarrow> \<not> holds o' x p \<Longrightarrow> filter (\<lambda>y. holds o' y p) xs = []"
  by (auto simp: filter_empty_conv dest: holds_mono)

lemma filter_holds_split:
  "sorted (map fst xs) \<Longrightarrow>
   filter (\<lambda>x. holds o' x p) xs @ filter (\<lambda>x. \<not> holds o' x p) xs = xs"
proof (induction xs)
  case (Cons x xs)
  show ?case
  proof (cases "holds o' x p")
    case True
    with Cons show ?thesis by simp
  next
    case False
    from filter_holds_none [OF Cons.prems False]
    have none: "filter (\<lambda>y. holds o' y p) xs = []" .
    then have "filter (\<lambda>y. \<not> holds o' y p) xs = xs"
      by (simp add: filter_empty_conv filter_id_conv)
    with none False show ?thesis by simp
  qed
qed simp

lemma leafPartition_facts:
  assumes "sorted (map fst xs)"
  shows "\<exists>ys zs. leafPartition xs (Some p) o' = Inr (Leaf ys, Leaf zs) \<and>
           sorted (map fst ys) \<and> sorted (map fst zs) \<and> ys @ zs = xs \<and>
           (xs \<noteq> [] \<and> holds o' (hd xs) p \<longrightarrow> ys \<noteq> [] \<and> hd ys = hd xs) \<and>
           (xs \<noteq> [] \<and> \<not> holds o' (hd xs) p \<longrightarrow> ys = [] \<and> zs = xs)"
proof (cases xs)
  case Nil
  then show ?thesis by simp
next
  case (Cons x xs')
  let ?ys = "filter (\<lambda>x. holds o' x p) xs" and ?zs = "filter (\<lambda>x. \<not> holds o' x p) xs"
  have eq: "leafPartition xs (Some p) o' = Inr (Leaf ?ys, Leaf ?zs)"
    using Cons by simp
  have split: "?ys @ ?zs = xs" by (rule filter_holds_split [OF assms])
  have s1: "sorted (map fst ?ys)" and s2: "sorted (map fst ?zs)"
    using assms by (simp_all add: sorted_filter)
  have h: "holds o' (hd xs) p \<longrightarrow> ?ys \<noteq> [] \<and> hd ?ys = hd xs"
    using Cons by simp
  have n: "\<not> holds o' (hd xs) p \<longrightarrow> ?ys = [] \<and> ?zs = xs"
  proof
    assume nh: "\<not> holds o' (hd xs) p"
    with Cons assms filter_holds_none [of x xs' o' p] have "?ys = []" by simp
    with split show "?ys = [] \<and> ?zs = xs" by simp
  qed
  from eq split s1 s2 h n show ?thesis by blast
qed

lemma Limit_append: "sum_list (map Limit (ls @ rs)) = sum_list (map Limit ls) + sum_list (map Limit rs)"
  by simp

lemma Limit_pos_list:
  "list_all (\<lambda>s. consistent s \<and> 0 < Limit s) ls \<Longrightarrow> ls \<noteq> [] \<Longrightarrow> 0 < sum_list (map Limit ls)"
  by (cases ls) auto

lemma Partition_total:
  "consistent r \<Longrightarrow> \<exists>p1 p2. Partition r (Some p) o' = Inr (p1, p2) \<and> partOk r p o' p1 p2"
  "loopPre f l ls rs p o' \<Longrightarrow>
     \<exists>p1 p2. PartitionLoop f l ls rs (Some p) o' = Inr (p1, p2) \<and> loopPost f ls rs p1 p2"
proof (induction r "Some p" o' and f l ls rs "Some p" o' rule: Partition_PartitionLoop.induct)
  case (1 o')
  then show ?case by (simp add: partOk_def)
next
  case (2 xs o')
  then have srt: "sorted (map fst xs)" by simp
  from leafPartition_facts [OF srt, of p o'] obtain ys zs where
    eq: "leafPartition xs (Some p) o' = Inr (Leaf ys, Leaf zs)"
    and s: "sorted (map fst ys)" "sorted (map fst zs)" and app: "ys @ zs = xs"
    and h: "xs \<noteq> [] \<and> holds o' (hd xs) p \<longrightarrow> ys \<noteq> [] \<and> hd ys = hd xs"
    and n: "xs \<noteq> [] \<and> \<not> holds o' (hd xs) p \<longrightarrow> ys = [] \<and> zs = xs"
    by blast
  have "partOk (Leaf xs) p o' (Leaf ys) (Leaf zs)"
  proof (cases "xs = []")
    case True
    with s app show ?thesis by (simp add: partOk_def)
  next
    case False
    with s app h n show ?thesis by (cases "holds o' (hd xs) p") (simp_all add: partOk_def)
  qed
  with eq show ?case by simp
next
  case (3 f l segs o')
  from "3.prems" obtain s ss where segs: "segs = s # ss" by (cases segs) auto
  with "3.prems" have cs: "consistent s" "0 < Limit s" by auto
  with consistent_bounds [of s] obtain x where x: "First s = Some x" by auto
  with "3.prems" segs have f: "f = Some x" by simp
  have ap: "applyOrder o' f (Some p) = Inr (holds o' x p)" using f by simp
  have cd: "consistent (DisjointRanges (Some x) l segs)" using "3.prems" f by simp
  have pos: "0 < Limit (DisjointRanges (Some x) l segs)" using segs cs by simp
  show ?case
  proof (cases "holds o' x p")
    case False
    have "Partition (DisjointRanges f l segs) (Some p) o' = Inr (EmptyRange, DisjointRanges f l segs)"
      using ap False by simp
    moreover have "partOk (DisjointRanges (Some x) l segs) p o' EmptyRange (DisjointRanges (Some x) l segs)"
      unfolding partOk_def using cd False by simp
    ultimately show ?thesis using f by blast
  next
    case True
    have pre: "loopPre f l [] segs p o'"
      using "3.prems" True by (simp add: loopPre_def f)
    from "3.hyps" [OF ap _ pre] True
    obtain p1 p2 where
      lp: "PartitionLoop f l [] segs (Some p) o' = Inr (p1, p2)" and post: "loopPost f [] segs p1 p2"
      by auto
    have "Partition (DisjointRanges f l segs) (Some p) o' = Inr (p1, p2)"
      using ap True lp by simp
    moreover have "partOk (DisjointRanges (Some x) l segs) p o' p1 p2"
      unfolding partOk_def using post True pos by (simp add: loopPost_def f)
    ultimately show ?thesis using f by blast
  qed
next
  case (4 f l ls o')
  then show ?case
    by (auto simp: loopPre_def loopPost_def Limit_pos_list)
next
  case (5 f l ls r rs o')
  note pre = "5.prems"
  from pre have cr: "consistent r" "0 < Limit r"
    and cls: "list_all (\<lambda>s. consistent s \<and> 0 < Limit s) ls"
    and crs: "list_all (\<lambda>s. consistent s \<and> 0 < Limit s) rs"
    and l: "l \<noteq> None" and f: "First (hd (ls @ r # rs)) = f"
    by (auto simp: loopPre_def)
  from consistent_bounds [OF cr] obtain x y where x: "First r = Some x" and y: "Last r = Some y"
    by auto
  show ?case
  proof (cases "holds o' p x \<and> \<not> holds o' x p")
    case True
    with pre x have ne: "ls \<noteq> []" by (auto simp: loopPre_def)
    then have "Last (last ls) \<noteq> None"
      using cls consistent_bounds [of "last ls"] by (auto simp: list_all_iff)
    with True ne x y cls crs cr l f show ?thesis
      by (simp add: loopPost_def Limit_pos_list)
  next
    case nb: False
    then have b: "andAlso (applyOrder o' (Some p) (First r)) (notE (applyOrder o' (First r) (Some p))) = Inr False"
      using x by (cases "holds o' p x") auto
    show ?thesis
    proof (cases "holds o' x p \<and> holds o' p y")
      case True
      then have s: "andAlso (applyOrder o' (First r) (Some p)) (applyOrder o' (Some p) (Last r)) = Inr True"
        using x y by simp
      from "5.hyps"(1) [OF _ _ b refl s refl cr(1)] x y
      obtain p1 p2 where part: "Partition r (Some p) o' = Inr (p1, p2)" and ok: "partOk r p o' p1 p2"
        by auto
      from ok cr x True have p1: "consistent p1" "0 < Limit p1" "First p1 = First r"
        and p2: "consistent p2" and el: "elems p1 @ elems p2 = elems r"
        by (auto simp: partOk_def)
      from consistent_bounds [OF p1(1,2)] have lp1: "Last p1 \<noteq> None" by simp
      have f1: "First (hd (ls @ [p1])) = f"
        using f p1(3) by (cases ls) auto
      have c1: "consistent (DisjointRanges f (Last p1) (ls @ [p1]))"
        using cls p1 lp1 f1 by simp
      have pos1: "0 < Limit (DisjointRanges f (Last p1) (ls @ [p1]))"
        using p1 by simp
      show ?thesis
      proof (cases "Limit p2 = 0")
        case e2: True
        then have "elems p2 = []" by (simp add: Limit_elems)
        with el have el1: "elems p1 = elems r" by simp
        have c2: "consistent (if rs \<noteq> [] then DisjointRanges (First (hd rs)) l rs else EmptyRange)"
          using crs l by simp
        from x y b s part e2 lp1 c1 c2 pos1 el1 show ?thesis
          by (simp add: loopPost_def)
      next
        case n2: False
        with consistent_bounds [OF p2] have fp2: "First p2 \<noteq> None" by simp
        have c2: "consistent (DisjointRanges (First p2) l (p2 # rs))"
          using crs l p2 n2 by simp
        from x y b s part n2 lp1 fp2 c1 c2 pos1 el show ?thesis
          by (simp add: loopPost_def)
      qed
    next
      case False
      then have s: "andAlso (applyOrder o' (First r) (Some p)) (applyOrder o' (Some p) (Last r)) = Inr False"
        using x y by (cases "holds o' x p") auto
      have pre': "loopPre f l (ls @ [r]) rs p o'"
        using pre by (simp add: loopPre_def)
      from "5.hyps"(2) [OF _ _ b refl s refl pre'] x y
      obtain p1 p2 where
        "PartitionLoop f l (ls @ [r]) rs (Some p) o' = Inr (p1, p2)"
        "loopPost f (ls @ [r]) rs p1 p2" by auto
      with x y b s show ?thesis by (simp add: loopPost_def)
    qed
  qed
qed

section \<open>merge keeps ranges consistent\<close>













lemma consistent_First:
  "consistent r \<Longrightarrow> 0 < Limit r \<Longrightarrow> First r = Some (hd (elems r))"
proof (induction r)
  case (DisjointRanges f l segs)
  then obtain s ss where segs: "segs = s # ss" by (cases segs) auto
  with DisjointRanges.prems have cs: "consistent s" "0 < Limit s" by auto
  with DisjointRanges.IH [of s] segs have "First s = Some (hd (elems s))" by simp
  moreover from cs have "elems s \<noteq> []" by (simp add: Limit_elems)
  ultimately show ?case using DisjointRanges.prems segs by auto
qed auto










section \<open>Where the code departs from the specification\<close>

lemma merge_builds_gapExample:
  "merge nmr (Leaf [(1::int, ''a''), (2, ''b'')]) (Leaf [(5, ''c''), (6, ''d'')]) = Inr gapExample"
  by (simp add: merge_def gapExample_def Less_def selectLast_def)

text \<open>
  Claim C1 fails for the strict order when the pivot is equal to a bound of a segment.
  The well-formed composite over \<open>{1,2}\<close> and \<open>{5,6}\<close>, split at 5 under strictly-before,
  goes to the left part whole, with the elements 5 and 6 that are not strictly before 5;
  split at 2, its left part keeps the element 2.
\<close>

theorem Partition_strict_order_at_segment_bound:
  "wellFormed gapExample \<and>
   Partition gapExample (Some (5, ''p'')) LessOrder = Inr (gapExample, EmptyRange) \<and>
   elems gapExample = [(1, ''a''), (2, ''b''), (5, ''c''), (6, ''d'')] \<and>
   \<not> holds LessOrder (5, ''c'') (5, ''p'') \<and>
   \<not> list_all (\<lambda>e. holds LessOrder e (5, ''p'')) (elems gapExample) \<and>
   Partition gapExample (Some (2, ''p'')) LessOrder =
     Inr (DisjointRanges (Some (1, ''a'')) (Some (2, ''b'')) [Leaf [(1, ''a''), (2, ''b'')]],
          DisjointRanges (Some (5, ''c'')) (Some (6, ''d'')) [Leaf [(5, ''c''), (6, ''d'')]]) \<and>
   \<not> holds LessOrder (2, ''b'') (2, ''p'')"
  by (simp add: wellFormed_def gapExample_def Less_def)

text \<open>
  Claim C3 fails on the disjoint fast path of \<open>merge\<close>, which stores its operands as they
  are: with a composite as first operand the result has a composite as a direct segment.
\<close>

theorem merge_fast_path_nests:
  "wellFormed gapExample \<and> wellFormed (Leaf [(7::int, ''g'')]) \<and>
   merge nmr gapExample (Leaf [(7, ''g'')]) =
     Inr (DisjointRanges (Some (1, ''a'')) (Some (7, ''g'')) [gapExample, Leaf [(7, ''g'')]]) \<and>
   isComposite gapExample \<and>
   \<not> invariantI3 (DisjointRanges (Some (1, ''a'')) (Some (7, ''g'')) [gapExample, Leaf [(7, ''g'')]])"
  by (simp add: wellFormed_def gapExample_def Less_def merge_def selectLast_def)

text \<open>
  Claim C4 fails in the overlapping case of \<open>merge\<close>, through the defect of claim C1: the
  part of \<open>a\<close> strictly before \<open>b.First() = 5\<close> comes back as the whole of \<open>a\<close>, and the
  result has the segment \<open>{5,6}\<close> before the segment \<open>{5}\<close>.
\<close>

theorem merge_overlap_breaks_order:
  "wellFormed gapExample \<and> wellFormed (Leaf [(5::int, ''e''), (7, ''f'')]) \<and>
   merge nmr gapExample (Leaf [(5, ''e''), (7, ''f'')]) =
     Inr (DisjointRanges (Some (1, ''a'')) (Some (7, ''f''))
            [Leaf [(1, ''a''), (2, ''b'')], Leaf [(5, ''c''), (6, ''d'')],
             Leaf [(5, ''e'')], Leaf [(7, ''f'')]]) \<and>
   \<not> invariantI1 (DisjointRanges (Some (1, ''a'')) (Some (7, ''f''))
            [Leaf [(1, ''a''), (2, ''b'')], Leaf [(5, ''c''), (6, ''d'')],
             Leaf [(5, ''e'')], Leaf [(7, ''f'')]]) \<and>
   LessE (Last (Leaf [(5::int, ''c''), (6, ''d'')])) (First (Leaf [(5::int, ''e'')])) = Inr False"
  by (simp add: wellFormed_def gapExample_def Less_def merge_def selectLast_def selectFirst_def)

text \<open>
  Claim C7 fails in the overlapping case of \<open>merge\<close>, through the defect of claim C1: the
  cached \<open>last\<close> is 6, the greater of the two last bounds, and the last segment ends at 5.
\<close>

theorem merge_overlap_breaks_last:
  "wellFormed gapExample \<and> wellFormed (Leaf [(5::int, ''e'')]) \<and>
   merge nmr gapExample (Leaf [(5, ''e'')]) =
     Inr (DisjointRanges (Some (1, ''a'')) (Some (6, ''d''))
            [Leaf [(1, ''a''), (2, ''b'')], Leaf [(5, ''c''), (6, ''d'')], Leaf [(5, ''e'')]]) \<and>
   Last (last [Leaf [(1::int, ''a''), (2, ''b'')], Leaf [(5, ''c''), (6, ''d'')], Leaf [(5, ''e'')]])
     = Some (5, ''e'') \<and>
   \<not> invariantI2 (DisjointRanges (Some (1, ''a'')) (Some (6, ''d''))
            [Leaf [(1, ''a''), (2, ''b'')], Leaf [(5, ''c''), (6, ''d'')], Leaf [(5, ''e'')]])"
  by (simp add: wellFormed_def gapExample_def Less_def merge_def selectLast_def selectFirst_def)

text \<open>
  Claim C2 fails: \<open>Partition\<close> writes the left part of the segment it splits into the
  backing array of its receiver. After the composite over \<open>{1,2,3}\<close> and \<open>{5,6}\<close> is split
  at 2, its first segment is \<open>{1,2}\<close>: it has lost the element 3, and its \<open>Limit\<close> is 4.
\<close>

theorem Partition_overwrites_receiver:
  "deref store0 ref0 =
     DisjointRanges (Some (1, ''a'')) (Some (6, ''f''))
       [Leaf [(1, ''a''), (2, ''b''), (3, ''c'')], Leaf [(5, ''e''), (6, ''f'')]] \<and>
   wellFormed (deref store0 ref0) \<and>
   PartitionRef store0 ref0 (Some (2, ''p'')) LessOrEqualOrder =
     Inr ((DisjointRangesRef (Some (1, ''a'')) (Some (2, ''b'')) (Slice 0 0 1 2),
           DisjointRangesRef (Some (3, ''c'')) (Some (6, ''f'')) (Slice 2 0 2 2)), store1) \<and>
   deref store1 ref0 =
     DisjointRanges (Some (1, ''a'')) (Some (6, ''f''))
       [Leaf [(1, ''a''), (2, ''b'')], Leaf [(5, ''e''), (6, ''f'')]] \<and>
   elems (deref store0 ref0) = [(1, ''a''), (2, ''b''), (3, ''c''), (5, ''e''), (6, ''f'')] \<and>
   elems (deref store1 ref0) = [(1, ''a''), (2, ''b''), (5, ''e''), (6, ''f'')] \<and>
   Limit (deref store0 ref0) = 5 \<and> Limit (deref store1 ref0) = 4"
  by (simp add: store0_def store1_def ref0_def wellFormed_def sliceContents_def sliceAt_def
        subslice_def append1_def sliceLiteral_def Less_def)

section \<open>The store and the values agree on what Partition returns\<close>

lemma length_sliceContents: "sliceValid st s \<Longrightarrow> length (sliceContents st s) = sliceLen s"
  by (auto simp: sliceValid_def sliceContents_def)

lemma sliceAt_nth:
  "sliceValid st s \<Longrightarrow> i < sliceLen s \<Longrightarrow> sliceAt st s i = sliceContents st s ! i"
  by (auto simp: sliceValid_def sliceContents_def sliceAt_def)

lemma sliceContents_prefix:
  "sliceValid st s \<Longrightarrow> i \<le> sliceLen s \<Longrightarrow>
   sliceContents st (subslice s 0 i) = take i (sliceContents st s)"
  by (auto simp: sliceContents_def subslice_def min_def)

lemma sliceContents_suffix:
  "sliceValid st s \<Longrightarrow> i \<le> sliceLen s \<Longrightarrow>
   sliceContents st (subslice s i (sliceLen s)) = drop i (sliceContents st s)"
  by (auto simp: sliceContents_def subslice_def sliceValid_def drop_take add.commute)

lemma append1_in_place:
  assumes v: "sliceValid st s" and i: "i < sliceLen s"
  shows "\<exists>st1 s1. append1 st (subslice s 0 i) x = (st1, s1) \<and>
           sliceContents st1 s1 = take i (sliceContents st s) @ [x] \<and>
           sliceContents st1 (subslice s (Suc i) (sliceLen s)) = drop (Suc i) (sliceContents st s) \<and>
           length st1 = length st \<and> sliceValid st1 s \<and>
           (Suc i < sliceLen s \<longrightarrow> sliceAt st1 s (Suc i) = sliceContents st s ! Suc i)"
proof -
  let ?a = "sliceArray s" and ?o = "sliceOffset s"
  let ?arr = "st ! ?a"
  let ?st1 = "st[?a := ?arr[?o + i := x]]"
  let ?s1 = "Slice ?a ?o (i + 1) (sliceCap s)"
  from v i have a: "?a < length st" and len: "?o + i < length ?arr"
    and cap: "i < sliceCap s" and full: "?o + sliceCap s \<le> length ?arr" "sliceLen s \<le> sliceCap s"
    by (auto simp: sliceValid_def)
  have eq: "append1 st (subslice s 0 i) x = (?st1, ?s1)"
    using cap by (simp add: append1_def subslice_def)
  have arr1: "?st1 ! ?a = ?arr[?o + i := x]" using a by simp
  have c1: "sliceContents ?st1 ?s1 = take i (sliceContents st s) @ [x]"
  proof -
    have "take (i + 1) (drop ?o (?arr[?o + i := x])) = take i (drop ?o ?arr) @ [x]"
      using len by (simp add: drop_update_swap take_Suc_conv_app_nth)
    moreover have "take i (take (sliceLen s) (drop ?o ?arr)) = take i (drop ?o ?arr)"
      using i by (simp add: min_def)
    ultimately show ?thesis by (simp add: sliceContents_def arr1)
  qed
  have c2: "sliceContents ?st1 (subslice s (Suc i) (sliceLen s)) = drop (Suc i) (sliceContents st s)"
  proof -
    have "drop (?o + Suc i) (?st1 ! ?a) = drop (?o + Suc i) ?arr"
      using a by simp
    then show ?thesis
      by (simp add: sliceContents_def subslice_def drop_take add.commute)
  qed
  have v1: "sliceValid ?st1 s" using v a by (simp add: sliceValid_def)
  have at: "Suc i < sliceLen s \<longrightarrow> sliceAt ?st1 s (Suc i) = sliceContents st s ! Suc i"
    using full by (simp add: sliceAt_def arr1 sliceContents_def)
  from eq c1 c2 v1 at show ?thesis by simp
qed

lemma append1_full:
  assumes "sliceValid st s" "sliceLen s = sliceCap s"
  shows "\<exists>st1 s1. append1 st s x = (st1, s1) \<and>
           sliceContents st1 s1 = sliceContents st s @ [x] \<and>
           sliceValid st1 s1 \<and> sliceLen s1 = sliceCap s1 \<and>
           length st \<le> length st1 \<and> (\<forall>a < length st. st1 ! a = st ! a)"
  using assms length_sliceContents [OF assms(1)]
  by (simp add: append1_def sliceValid_def sliceContents_def nth_append)

lemma appendAll_full:
  assumes "sliceValid st s" "sliceLen s = sliceCap s"
  shows "\<exists>st1 s1. appendAll st s xs = (st1, s1) \<and>
           sliceContents st1 s1 = sliceContents st s @ xs \<and>
           length st \<le> length st1 \<and> (\<forall>a < length st. st1 ! a = st ! a)"
  using assms
proof (induction xs arbitrary: st s)
  case Nil
  then show ?case by simp
next
  case (Cons x xs)
  from append1_full [OF Cons.prems, of x] obtain st1 s1 where
    a: "append1 st s x = (st1, s1)" and c: "sliceContents st1 s1 = sliceContents st s @ [x]"
    and v: "sliceValid st1 s1" "sliceLen s1 = sliceCap s1"
    and le: "length st \<le> length st1" and same: "\<forall>a < length st. st1 ! a = st ! a"
    by blast
  from Cons.IH [OF v] obtain st2 s2 where
    b: "appendAll st1 s1 xs = (st2, s2)" and c2: "sliceContents st2 s2 = sliceContents st1 s1 @ xs"
    and le2: "length st1 \<le> length st2" and same2: "\<forall>a < length st1. st2 ! a = st1 ! a"
    by blast
  from a b c c2 le le2 same same2 show ?case by auto
qed

lemma sliceContents_same_array:
  "st' ! sliceArray s = st ! sliceArray s \<Longrightarrow> sliceContents st' s = sliceContents st s"
  by (simp add: sliceContents_def)

lemma PartitionRefLoop_value:
  "sliceValid st s \<Longrightarrow> i \<le> sliceLen s \<Longrightarrow>
   resultValue (PartitionRefLoop st f l s i e o') =
     PartitionLoop f l (take i (sliceContents st s)) (drop i (sliceContents st s)) e o'"
proof (induction st f l s i e o' rule: PartitionRefLoop.induct)
  case (1 st f l s i e o')
  note v = "1.prems"(1)
  let ?cs = "sliceContents st s"
  have len: "length ?cs = sliceLen s" by (rule length_sliceContents [OF v])
  show ?case
  proof (cases "i < sliceLen s")
    case False
    with "1.prems" len have "take i ?cs = ?cs" "drop i ?cs = []" by simp_all
    with False show ?thesis by (subst PartitionRefLoop.simps) simp
  next
    case True
    define r where "r = sliceAt st s i"
    define ls where "ls = take i ?cs"
    define rs where "rs = drop (Suc i) ?cs"
    have r: "r = ?cs ! i" unfolding r_def by (rule sliceAt_nth [OF v True])
    have dr: "drop i ?cs = r # rs"
      using True len r by (simp add: rs_def Cons_nth_drop_Suc)
    have goal: "PartitionLoop f l (take i ?cs) (drop i ?cs) e o' = PartitionLoop f l ls (r # rs) e o'"
      by (simp only: dr ls_def)
    have iz: "(i = 0) = (ls = [])" using True len by (auto simp: ls_def)
    have nx: "(Suc i < sliceLen s) = (rs \<noteq> [])" using len by (auto simp: rs_def)
    have pre: "sliceContents st (subslice s 0 i) = ls"
      using True by (simp add: ls_def sliceContents_prefix [OF v])
    have suf: "sliceContents st (subslice s i (sliceLen s)) = r # rs"
      using True dr by (simp add: sliceContents_suffix [OF v])
    have la: "ls \<noteq> [] \<Longrightarrow> sliceAt st s (i - 1) = last ls"
    proof -
      assume "ls \<noteq> []"
      with iz have pos: "0 < i" by simp
      with True have "sliceAt st s (i - 1) = ?cs ! (i - 1)"
        by (intro sliceAt_nth [OF v]) simp
      also have "\<dots> = take i ?cs ! (i - 1)" using pos by simp
      also have "\<dots> = last ls"
      proof -
        have "length (take i ?cs) = i" using True len by simp
        moreover from this pos have "take i ?cs \<noteq> []" by auto
        ultimately show ?thesis by (simp add: ls_def last_conv_nth)
      qed
      finally show ?thesis .
    qed
    have ap: "\<exists>st1 s1. append1 st (subslice s 0 i) x = (st1, s1) \<and>
           sliceContents st1 s1 = ls @ [x] \<and>
           sliceContents st1 (subslice s (i + 1) (sliceLen s)) = rs \<and>
           sliceValid st1 s \<and>
           (rs \<noteq> [] \<longrightarrow> sliceAt st1 s (i + 1) = hd rs)" for x
    proof -
      from append1_in_place [OF v True, of x] obtain st1 s1 where
        a: "append1 st (subslice s 0 i) x = (st1, s1)"
        and b: "sliceContents st1 s1 = take i ?cs @ [x]"
        and c: "sliceContents st1 (subslice s (Suc i) (sliceLen s)) = drop (Suc i) ?cs"
        and d: "sliceValid st1 s"
        and e: "Suc i < sliceLen s \<longrightarrow> sliceAt st1 s (Suc i) = ?cs ! Suc i"
        by blast
      have "rs \<noteq> [] \<longrightarrow> sliceAt st1 s (i + 1) = hd rs"
        using e len by (auto simp: rs_def hd_drop_conv_nth)
      with a b c d show ?thesis by (simp add: ls_def rs_def)
    qed
    show ?thesis
    proof (cases "First r = None \<or> Last r = None")
      case nil: True
      then show ?thesis
        unfolding goal using True
        by (subst PartitionRefLoop.simps) (auto simp: Let_def r_def [symmetric])
    next
      case False
      then obtain fx lx where nn: "First r = Some fx" "Last r = Some lx" by auto
      define B where "B = andAlso (applyOrder o' e (Some fx)) (notE (applyOrder o' (Some fx) e))"
      define S where "S = andAlso (applyOrder o' (Some fx) e) (applyOrder o' e (Some lx))"
      note folds = Let_def r_def [symmetric] B_def [symmetric] S_def [symmetric] iz nx
      show ?thesis
      proof (cases B)
        case (Inl err)
        then show ?thesis
          unfolding goal using True nn
          by (subst PartitionRefLoop.simps) (simp add: folds)
      next
        case (Inr b)
        show ?thesis
        proof (cases b)
          case bt: True
          show ?thesis
          proof (cases "ls = []")
            case True
            with \<open>i < sliceLen s\<close> nn Inr bt show ?thesis
              unfolding goal
              by (subst PartitionRefLoop.simps) (simp add: folds)
          next
            case False
            with True nn Inr bt la pre suf show ?thesis
              unfolding goal
              by (subst PartitionRefLoop.simps) (simp add: folds)
          qed
        next
          case bf: False
          show ?thesis
          proof (cases S)
            case (Inl err)
            with True nn \<open>B = Inr b\<close> bf show ?thesis
              unfolding goal
              by (subst PartitionRefLoop.simps) (simp add: folds)
          next
            case sr: (Inr c)
            show ?thesis
            proof (cases c)
              case cf: False
              have "resultValue (PartitionRefLoop st f l s (i + 1) e o') =
                      PartitionLoop f l (take (i + 1) ?cs) (drop (i + 1) ?cs) e o'"
                using True nn \<open>B = Inr b\<close> bf sr cf v
                by (intro "1.IH") (auto simp: r_def B_def S_def)
              moreover have "take (i + 1) ?cs = ls @ [r]"
                using True len r by (simp add: ls_def take_Suc_conv_app_nth)
              moreover have "drop (i + 1) ?cs = rs" by (simp add: rs_def)
              ultimately show ?thesis
                unfolding goal using True nn \<open>B = Inr b\<close> bf sr cf
                by (subst PartitionRefLoop.simps) (simp add: folds)
            next
              case ct: True
              show ?thesis
              proof (cases "Partition r e o'")
                case (Inl err)
                with True nn \<open>B = Inr b\<close> bf sr ct show ?thesis
                  unfolding goal
                  by (subst PartitionRefLoop.simps) (simp add: folds)
              next
                case (Inr pp)
                obtain p1 p2 where pp: "pp = (p1, p2)" by (cases pp)
                from ap [of p1] obtain st1 s1 where
                  a1: "append1 st (subslice s 0 i) p1 = (st1, s1)"
                  and c1: "sliceContents st1 s1 = ls @ [p1]"
                  and c2: "sliceContents st1 (subslice s (i + 1) (sliceLen s)) = rs"
                  and v1: "sliceValid st1 s"
                  and at: "rs \<noteq> [] \<longrightarrow> sliceAt st1 s (i + 1) = hd rs"
                  by blast
                show ?thesis
                proof (cases "Limit p2 = 0")
                  case e2: True
                  from True nn \<open>B = Inr b\<close> bf sr ct Inr pp e2 a1 c1 c2 at show ?thesis
                    unfolding goal
                    by (subst PartitionRefLoop.simps) (simp add: folds)
                next
                  case n2: False
                  let ?st2 = "st1 @ [[p2]]"
                  let ?s0 = "Slice (length st1) 0 1 1"
                  have lit: "sliceLiteral st1 [p2] = (?st2, ?s0)" by (simp add: sliceLiteral_def)
                  have v0: "sliceValid ?st2 ?s0" "sliceLen ?s0 = sliceCap ?s0"
                    by (simp_all add: sliceValid_def)
                  have c0: "sliceContents ?st2 ?s0 = [p2]" by (simp add: sliceContents_def)
                  have arr: "sliceArray s < length st1" using v1 by (simp add: sliceValid_def)
                  then have same2: "?st2 ! sliceArray s = st1 ! sliceArray s"
                    by (simp add: nth_append)
                  have x2: "sliceContents ?st2 (subslice s (i + 1) (sliceLen s)) = rs"
                    using c2 same2 by (simp add: sliceContents_def subslice_def)
                  from appendAll_full [OF v0, of rs] c0 obtain st3 s2 where
                    a3: "appendAll ?st2 ?s0 rs = (st3, s2)"
                    and c3: "sliceContents st3 s2 = p2 # rs"
                    and same3: "\<forall>a < length ?st2. st3 ! a = ?st2 ! a"
                    by auto
                  have "st3 ! sliceArray s1 = st1 ! sliceArray s1"
                  proof -
                    from a1 True v have "sliceArray s1 = sliceArray s"
                      by (auto simp: append1_def subslice_def sliceValid_def split: if_splits)
                    with arr same3 same2 show ?thesis by simp
                  qed
                  then have c1': "sliceContents st3 s1 = ls @ [p1]"
                    using c1 by (simp add: sliceContents_def)
                  from True nn \<open>B = Inr b\<close> bf sr ct Inr pp n2 a1 lit x2 a3 c3 c1' show ?thesis
                    unfolding goal
                    by (subst PartitionRefLoop.simps) (simp add: folds)
                qed
              qed
            qed
          qed
        qed
      qed
    qed
  qed
qed

theorem PartitionRef_value:
  "sliceValid st s \<Longrightarrow>
   resultValue (PartitionRef st (DisjointRangesRef f l s) e o') =
     Partition (deref st (DisjointRangesRef f l s)) e o'"
  using PartitionRefLoop_value [of st s 0 f l e o']
  by (cases "applyOrder o' f e") auto


theorem PartitionRef_value_witness:
  "sliceValid store0 (Slice 0 0 2 2) \<and>
   resultValue (PartitionRef store0 ref0 (Some (2, ''p'')) LessOrEqualOrder) =
     Partition (deref store0 ref0) (Some (2, ''p'')) LessOrEqualOrder"
proof -
  have h: "sliceValid store0 (Slice 0 0 2 2)" by (simp add: sliceValid_def store0_def)
  from PartitionRef_value [OF h, of "Some (1, ''a'')" "Some (6, ''f'')" "Some (2, ''p'')" LessOrEqualOrder] h
  show ?thesis by (simp add: ref0_def)
qed

section \<open>What Partition does guarantee\<close>

text \<open>
  On a consistent range \<open>Partition\<close> returns two parts whose element sequences, one after
  the other, are the element sequence of the range, under both orders.
\<close>

theorem Partition_keeps_elements:
  assumes "consistent r"
  shows "\<exists>p1 p2. Partition r (Some p) o' = Inr (p1, p2) \<and> elems p1 @ elems p2 = elems r"
  using Partition_total(1) [OF assms, of p o'] by (auto simp: partOk_def)

theorem Partition_keeps_elements_witness:
  "consistent gapExample \<and>
   (\<exists>p1 p2. Partition gapExample (Some (5, ''p'')) LessOrder = Inr (p1, p2) \<and>
      elems p1 @ elems p2 = elems gapExample)"
proof -
  have h: "consistent gapExample" by (simp add: gapExample_def)
  from Partition_keeps_elements [OF h, of "(5, ''p'')" LessOrder] h show ?thesis by blast
qed

text \<open>
  Under before-or-equal \<open>Partition\<close> of a well-formed range is the split the contract
  asks for: every element of the left part is before or equal to the pivot and no element
  of the right part is.
\<close>

lemma wellFormed_segments:
  assumes "wellFormed (DisjointRanges f l segs)"
  shows "list_all sortedLeaf segs" "adjacentBefore segs"
    "sorted (map fst (concat (map elems segs)))"
proof -
  from assms have c: "\<forall>s \<in> set segs. consistent s \<and> 0 < Limit s"
    and i3: "\<forall>s \<in> set segs. \<not> isComposite s"
    by (simp_all add: wellFormed_def list_all_iff)
  have "sortedLeaf s" if "s \<in> set segs" for s
  proof (cases s)
    case EmptyRange
    with c that show ?thesis by auto
  next
    case (Leaf xs)
    with c that show ?thesis by auto
  next
    case (DisjointRanges f l ss)
    with i3 that show ?thesis by auto
  qed
  then show "list_all sortedLeaf segs" by (simp add: list_all_iff)
  from assms show "adjacentBefore segs" "sorted (map fst (concat (map elems segs)))"
    by (simp_all add: wellFormed_def)
qed

lemma sorted_le_last:
  assumes "sorted (map fst xs)" "x \<in> set xs"
  shows "fst x \<le> fst (last xs)"
proof -
  from assms(2) have ne: "xs \<noteq> []" by auto
  then have xs: "xs = butlast xs @ [last xs]" by simp
  with assms(1) have "sorted (map fst (butlast xs @ [last xs]))" by simp
  then have "\<forall>y \<in> set (butlast xs). fst y \<le> fst (last xs)"
    by (simp add: sorted_append)
  moreover from assms(2) xs have "x \<in> set (butlast xs) \<or> x = last xs"
    by (metis Un_iff insert_iff list.set(2) set_append empty_iff list.set(1))
  ultimately show ?thesis by auto
qed

lemma sorted_hd_le:
  assumes "sorted (map fst xs)" "x \<in> set xs"
  shows "fst (hd xs) \<le> fst x"
  using assms by (cases xs) auto

lemma andAlso_Inr: "andAlso (Inr a) (Inr b) = Inr (a \<and> b)"
  by (cases a) simp_all

lemma Loop_boundary_le:
  assumes "xs \<noteq> []" "fst p < fst (hd xs)"
  shows "PartitionLoop f l ls (Leaf xs # rs) (Some p) LessOrEqualOrder =
    (if ls = [] then Inl IndexOutOfRange
     else Inr (DisjointRanges f (Last (last ls)) ls, DisjointRanges (Some (hd xs)) l (Leaf xs # rs)))"
proof -
  from assms(2) have "Less p (hd xs)" "\<not> Less (hd xs) p" by (auto simp: Less_def)
  with assms(1) show ?thesis by (simp add: andAlso_Inr)
qed

lemma Loop_skip_le:
  assumes "xs \<noteq> []" "\<not> fst p < fst (hd xs)" "\<not> fst p \<le> fst (last xs)"
  shows "PartitionLoop f l ls (Leaf xs # rs) (Some p) LessOrEqualOrder =
           PartitionLoop f l (ls @ [Leaf xs]) rs (Some p) LessOrEqualOrder"
proof -
  from assms(2,3) have "\<not> Less p (hd xs)" "Less (last xs) p" by (auto simp: Less_def)
  with assms(1) show ?thesis by (simp add: andAlso_Inr)
qed

lemma Loop_straddle_le:
  assumes "xs \<noteq> []" "\<not> fst p < fst (hd xs)" "fst p \<le> fst (last xs)"
    and "ys = filter (\<lambda>x. fst x \<le> fst p) xs" "zs = filter (\<lambda>x. \<not> fst x \<le> fst p) xs"
  shows "ys \<noteq> [] \<and>
         PartitionLoop f l ls (Leaf xs # rs) (Some p) LessOrEqualOrder =
           Inr (DisjointRanges f (Some (last ys)) (ls @ [Leaf ys]),
                if zs = [] then (if rs \<noteq> [] then DisjointRanges (First (hd rs)) l rs else EmptyRange)
                else DisjointRanges (Some (hd zs)) l (Leaf zs # rs))"
proof -
  have h: "(\<lambda>x. holds LessOrEqualOrder x p) = (\<lambda>x. fst x \<le> fst p)"
    "(\<lambda>x. \<not> holds LessOrEqualOrder x p) = (\<lambda>x. \<not> fst x \<le> fst p)"
    by (auto simp: Less_def)
  from assms(1,2) have "hd xs \<in> set ys"
    using assms(4) by (cases xs) auto
  then have ne: "ys \<noteq> []" by auto
  obtain x xs' where xs: "xs = x # xs'" using assms(1) by (cases xs) auto
  have lp: "leafPartition xs (Some p) LessOrEqualOrder = Inr (Leaf ys, Leaf zs)"
    unfolding xs leafPartition.simps h using assms(4,5) xs by simp
  from assms(2,3) have c: "\<not> Less p (hd xs)" "\<not> Less (last xs) p" by (auto simp: Less_def)
  have "PartitionLoop f l ls (Leaf xs # rs) (Some p) LessOrEqualOrder =
           Inr (DisjointRanges f (Some (last ys)) (ls @ [Leaf ys]),
                if zs = [] then (if rs \<noteq> [] then DisjointRanges (First (hd rs)) l rs else EmptyRange)
                else DisjointRanges (Some (hd zs)) l (Leaf zs # rs))"
    using assms(1) ne c by (simp add: lp andAlso_Inr del: leafPartition.simps)
  with ne show ?thesis by simp
qed

lemma PartitionLoop_le:
  assumes "list_all sortedLeaf rs" "adjacentBefore rs"
    "sorted (map fst (concat (map elems rs)))"
    "PartitionLoop f l ls rs (Some p) LessOrEqualOrder = Inr (p1, p2)"
    "\<forall>x \<in> set (concat (map elems ls)). fst x \<le> fst p"
  shows "(\<forall>x \<in> set (elems p1). fst x \<le> fst p) \<and> (\<forall>x \<in> set (elems p2). fst p < fst x)"
  using assms
proof (induction rs arbitrary: ls)
  case Nil
  then show ?case by fastforce
next
  case (Cons r rs)
  from Cons.prems(1) obtain xs where r: "r = Leaf xs" and ne: "xs \<noteq> []"
    and sx: "sorted (map fst xs)" and leaves: "list_all sortedLeaf rs"
    by (cases r) auto
  let ?rest = "concat (map elems rs)"
  from Cons.prems(3) r have srest: "sorted (map fst ?rest)"
    by (auto simp: sorted_append)
  from Cons.prems(2) have adj: "adjacentBefore rs" by (cases rs) auto
  have strict: "fst x < fst y" if "x \<in> set xs" "y \<in> set ?rest" for x y
  proof (cases rs)
    case Nil
    with that show ?thesis by simp
  next
    case (Cons t ts)
    with leaves obtain ys where t: "t = Leaf ys" and ny: "ys \<noteq> []" by (cases t) auto
    from Cons.prems(2) Cons r t that(1) ny
    have 1: "fst x < fst (hd ys)"
      by (auto simp: list_all_iff Less_def)
    from srest Cons t have sy: "sorted (map fst (ys @ concat (map elems ts)))" by simp
    from that(2) Cons t have "y \<in> set (ys @ concat (map elems ts))" by simp
    from sorted_hd_le [OF sy this] ny have "fst (hd ys) \<le> fst y" by simp
    with 1 show ?thesis by simp
  qed
  note hd_le = sorted_hd_le [OF sx] and le_last = sorted_le_last [OF sx]
  show ?case
  proof (cases "fst p < fst (hd xs)")
    case True
    from Cons.prems(4) Loop_boundary_le [OF ne True, of f l ls rs] r
    have res: "ls \<noteq> []" "p1 = DisjointRanges f (Last (last ls)) ls"
      "p2 = DisjointRanges (Some (hd xs)) l (Leaf xs # rs)"
      by (auto split: if_splits)
    have A: "\<forall>x \<in> set xs. fst p < fst x"
      using hd_le True by (auto intro: less_le_trans)
    have B: "\<forall>y \<in> set ?rest. fst p < fst y"
    proof
      fix y assume "y \<in> set ?rest"
      from strict [OF _ this, of "hd xs"] ne True show "fst p < fst y" by simp
    qed
    have e1: "elems p1 = concat (map elems ls)" and e2: "elems p2 = xs @ ?rest"
      using res by simp_all
    have "\<forall>x \<in> set (elems p2). fst p < fst x"
      unfolding e2 using A B by (simp add: ball_Un)
    moreover have "\<forall>x \<in> set (elems p1). fst x \<le> fst p"
      unfolding e1 using Cons.prems(5) by simp
    ultimately show ?thesis by simp
  next
    case nb: False
    show ?thesis
    proof (cases "fst p \<le> fst (last xs)")
      case False
      from Cons.prems(4) Loop_skip_le [OF ne nb False, of f l ls rs] r
      have lp: "PartitionLoop f l (ls @ [Leaf xs]) rs (Some p) LessOrEqualOrder = Inr (p1, p2)"
        by simp
      have "\<forall>x \<in> set xs. fst x \<le> fst p"
      proof
        fix x assume "x \<in> set xs"
        from le_last [OF this] False show "fst x \<le> fst p" by simp
      qed
      with Cons.prems(5)
      have "\<forall>x \<in> set (concat (map elems (ls @ [Leaf xs]))). fst x \<le> fst p"
        by (simp add: ball_Un)
      from Cons.IH [OF leaves adj srest lp this] show ?thesis .
    next
      case True
      define ys where "ys = filter (\<lambda>x. fst x \<le> fst p) xs"
      define zs where "zs = filter (\<lambda>x. \<not> fst x \<le> fst p) xs"
      from Loop_straddle_le [OF ne nb True ys_def zs_def, of f l ls rs] Cons.prems(4) r
      have res: "p1 = DisjointRanges f (Some (last ys)) (ls @ [Leaf ys])"
        "p2 = (if zs = [] then (if rs \<noteq> [] then DisjointRanges (First (hd rs)) l rs else EmptyRange)
               else DisjointRanges (Some (hd zs)) l (Leaf zs # rs))"
        by simp_all
      have e1: "elems p1 = concat (map elems ls) @ ys" using res(1) by simp
      have 1: "\<forall>x \<in> set (elems p1). fst x \<le> fst p"
        unfolding e1 using Cons.prems(5) by (simp add: ball_Un ys_def)
      have rest: "\<forall>y \<in> set ?rest. fst p < fst y"
      proof
        fix y assume "y \<in> set ?rest"
        from strict [OF _ this, of "last xs"] ne True show "fst p < fst y" by simp
      qed
      have e2: "elems p2 = zs @ ?rest" using res(2) by (cases rs) simp_all
      have 2: "\<forall>x \<in> set (elems p2). fst p < fst x"
        unfolding e2 using rest by (simp add: ball_Un zs_def not_le)
      from 1 2 show ?thesis by simp
    qed
  qed
qed

theorem Partition_before_or_equal:
  assumes "wellFormed r"
  shows "\<exists>p1 p2. Partition r (Some p) LessOrEqualOrder = Inr (p1, p2) \<and>
           elems p1 @ elems p2 = elems r \<and>
           list_all (\<lambda>x. holds LessOrEqualOrder x p) (elems p1) \<and>
           list_all (\<lambda>x. \<not> holds LessOrEqualOrder x p) (elems p2)"
proof -
  from assms have c: "consistent r" and srt: "sorted (map fst (elems r))"
    by (simp_all add: wellFormed_def)
  from Partition_total(1) [OF c, of p LessOrEqualOrder] obtain p1 p2 where
    part: "Partition r (Some p) LessOrEqualOrder = Inr (p1, p2)"
    and el: "elems p1 @ elems p2 = elems r"
    by (auto simp: partOk_def)
  have "(\<forall>x \<in> set (elems p1). fst x \<le> fst p) \<and> (\<forall>x \<in> set (elems p2). fst p < fst x)"
  proof (cases r)
    case EmptyRange
    with part show ?thesis by auto
  next
    case (Leaf xs)
    have "leafPartition xs (Some p) LessOrEqualOrder =
            Inr (Leaf (filter (\<lambda>x. holds LessOrEqualOrder x p) xs),
                 Leaf (filter (\<lambda>x. \<not> holds LessOrEqualOrder x p) xs))"
      by (cases xs) simp_all
    with part Leaf have "elems p1 = filter (\<lambda>x. holds LessOrEqualOrder x p) xs"
      "elems p2 = filter (\<lambda>x. \<not> holds LessOrEqualOrder x p) xs"
      by auto
    then show ?thesis by (auto simp: Less_def not_less not_le)
  next
    case (DisjointRanges f l segs)
    note segs = wellFormed_segments [OF assms [unfolded DisjointRanges]]
    from c DisjointRanges have pos: "0 < Limit r"
      by (cases segs) auto
    define x where "x = hd (concat (map elems segs))"
    have er: "elems r = concat (map elems segs)" using DisjointRanges by simp
    from consistent_First [OF c pos] have "First r = Some x" by (simp add: x_def er)
    then have f: "f = Some x" using DisjointRanges by simp
    have part': "Partition (DisjointRanges (Some x) l segs) (Some p) LessOrEqualOrder = Inr (p1, p2)"
      using part DisjointRanges f by simp
    show ?thesis
    proof (cases "fst x \<le> fst p")
      case False
      then have "Less p x" by (simp add: Less_def)
      with part' have "p1 = EmptyRange" "p2 = DisjointRanges (Some x) l segs"
        by simp_all
      then have e: "elems p1 = []" "elems p2 = elems r" using er by simp_all
      have "\<forall>y \<in> set (elems r). fst p < fst y"
      proof
        fix y assume "y \<in> set (elems r)"
        from sorted_hd_le [OF srt this] False show "fst p < fst y" by (simp add: er x_def)
      qed
      with e show ?thesis by simp
    next
      case True
      then have "\<not> Less p x" by (simp add: Less_def)
      with part' f
      have "PartitionLoop f l [] segs (Some p) LessOrEqualOrder = Inr (p1, p2)"
        by simp
      from PartitionLoop_le [OF segs this] show ?thesis by simp
    qed
  qed
  with part el show ?thesis by (auto simp: list_all_iff Less_def)
qed

theorem Partition_before_or_equal_witness:
  "wellFormed gapExample \<and>
   Partition gapExample (Some (5, ''p'')) LessOrEqualOrder =
     Inr (DisjointRanges (Some (1, ''a'')) (Some (5, ''c''))
            [Leaf [(1, ''a''), (2, ''b'')], Leaf [(5, ''c'')]],
          DisjointRanges (Some (6, ''d'')) (Some (6, ''d'')) [Leaf [(6, ''d'')]]) \<and>
   (\<exists>p1 p2. Partition gapExample (Some (5, ''p'')) LessOrEqualOrder = Inr (p1, p2) \<and>
      elems p1 @ elems p2 = elems gapExample \<and>
      list_all (\<lambda>x. holds LessOrEqualOrder x (5, ''p'')) (elems p1) \<and>
      list_all (\<lambda>x. \<not> holds LessOrEqualOrder x (5, ''p'')) (elems p2))"
proof -
  have h: "wellFormed gapExample" by (simp add: wellFormed_def gapExample_def Less_def)
  have e: "Partition gapExample (Some (5, ''p'')) LessOrEqualOrder =
     Inr (DisjointRanges (Some (1, ''a'')) (Some (5, ''c''))
            [Leaf [(1, ''a''), (2, ''b'')], Leaf [(5, ''c'')]],
          DisjointRanges (Some (6, ''d'')) (Some (6, ''d'')) [Leaf [(6, ''d'')]])"
    by (simp add: gapExample_def Less_def)
  from Partition_before_or_equal [OF h, of "(5, ''p'')"] h e show ?thesis by blast
qed

end
